theory Spec2Isabelle
  imports Main "HOL-Library.Sublist" "HOL-Library.AList" "HOL-Library.Char_ord"
    "HOL-Library.List_Lexorder"
begin

section \<open>JavaScript values\<close>

text \<open>
  \<^verbatim>\<open>lib/utils/buildDocs.js\<close> is dynamically typed: every schema, property descriptor,
  example and annotation is a JSON-like JavaScript value. The values are a datatype;
  an object is the association list of its own properties in insertion order, where
  the first binding of a key is the one that counts. Numbers are the integers (no
  fractions, no NaN). A string is a list of characters with the codes 0 to 255, each
  standing for the UTF-16 code unit of that value.
\<close>

datatype jsval =
    Undefined
  | Null
  | Bool bool
  | Num int
  | Str string
  | Arr "jsval list"
  | Obj "(string \<times> jsval) list"

text \<open>The two errors the module can raise: a \<^verbatim>\<open>TypeError\<close> of the runtime (a property
  read on \<^verbatim>\<open>undefined\<close>/\<^verbatim>\<open>null\<close>, a call of something that is not a function), and the
  \<^verbatim>\<open>new Error(message)\<close> thrown by \<^verbatim>\<open>processProperty\<close>.\<close>

datatype error = TypeError | Error string

text \<open>Truthiness, as \<^verbatim>\<open>if (v)\<close>, \<^verbatim>\<open>v ? a : b\<close>, \<^verbatim>\<open>v && w\<close> and \<^verbatim>\<open>v || w\<close> test it.\<close>

fun truthy :: "jsval \<Rightarrow> bool" where
  "truthy Undefined = False"
| "truthy Null = False"
| "truthy (Bool b) = b"
| "truthy (Num n) = (n \<noteq> 0)"
| "truthy (Str s) = (s \<noteq> [])"
| "truthy (Arr xs) = True"
| "truthy (Obj fs) = True"

definition nullish :: "jsval \<Rightarrow> bool" where
  "nullish v = (v = Undefined \<or> v = Null)"

text \<open>\<^verbatim>\<open>a || b\<close>.\<close>

definition or_else :: "jsval \<Rightarrow> jsval \<Rightarrow> jsval" where
  "or_else a b = (if truthy a then a else b)"

subsection \<open>Decimal numerals\<close>

definition digit :: "nat \<Rightarrow> char" where
  "digit d = ''0123456789'' ! (d mod 10)"

fun show_nat :: "nat \<Rightarrow> string" where
  "show_nat n = (if n < 10 then [digit n] else show_nat (n div 10) @ [digit n])"

declare show_nat.simps [simp del]

definition show_int :: "int \<Rightarrow> string" where
  "show_int i = (if i < 0 then CHR ''-'' # show_nat (nat (- i)) else show_nat (nat i))"

subsection \<open>Strings\<close>

text \<open>\<^verbatim>\<open>xs.join(sep)\<close> on an array of strings.\<close>

fun join :: "string \<Rightarrow> string list \<Rightarrow> string" where
  "join sep [] = []"
| "join sep [x] = x"
| "join sep (x # y # ys) = x @ sep @ join sep (y # ys)"

text \<open>The conversion to a string that a template literal \<^verbatim>\<open>`${v}`\<close> and \<^verbatim>\<open>s + v\<close> perform.\<close>

fun to_string :: "jsval \<Rightarrow> string" where
  "to_string Undefined = ''undefined''"
| "to_string Null = ''null''"
| "to_string (Bool b) = (if b then ''true'' else ''false'')"
| "to_string (Num n) = show_int n"
| "to_string (Str s) = s"
| "to_string (Arr xs) =
     join '','' (map (\<lambda>x. if nullish x then [] else to_string x) xs)"
| "to_string (Obj fs) = ''[object Object]''"

definition backtick :: char where
  "backtick = CHR 0x60"

definition nl :: string where
  "nl = [CHR 0x0A]"

text \<open>\<^verbatim>\<open>s.replace(pat, rep)\<close> with a string pattern: the first occurrence of \<^verbatim>\<open>pat\<close> is
  replaced, the rest of the string is kept as it is. (The replacement used in this
  module is the empty string, so no \<^verbatim>\<open>$\<close>-pattern is involved.)\<close>

fun str_replace :: "string \<Rightarrow> string \<Rightarrow> string \<Rightarrow> string" where
  "str_replace pat rep [] = (if pat = [] then rep else [])"
| "str_replace pat rep (c # cs) =
     (if prefix pat (c # cs) then rep @ drop (length pat) (c # cs)
      else c # str_replace pat rep cs)"

text \<open>\<^verbatim>\<open>s.trim()\<close> removes white space and line terminators at both ends: of the
  code units below 256 these are tab, line feed, vertical tab, form feed, carriage
  return, space and the no-break space U+00A0.\<close>

definition is_space :: "char \<Rightarrow> bool" where
  "is_space c =
     (c \<in> set [CHR 0x09, CHR 0x0A, CHR 0x0B, CHR 0x0C, CHR 0x0D, CHR 0x20, CHR 0xA0])"

definition trim :: "string \<Rightarrow> string" where
  "trim s = rev (dropWhile is_space (rev (dropWhile is_space s)))"

section \<open>quoteOrNa\<close>

text \<open>
  \<^verbatim>\<open>const quoteOrNa = val => (val ? `\`${val.replace('`', '')}\`` : '_n/a_');\<close>

  A truthy value that is not a string has no \<^verbatim>\<open>replace\<close> method: the call raises a
  \<^verbatim>\<open>TypeError\<close>.
\<close>

fun quoteOrNa :: "jsval \<Rightarrow> error + string" where
  "quoteOrNa (Str s) =
     (if s = [] then Inr ''_n/a_''
      else Inr ([backtick] @ str_replace [backtick] [] s @ [backtick]))"
| "quoteOrNa v = (if truthy v then Inl TypeError else Inr ''_n/a_'')"

section \<open>Values as objects\<close>

text \<open>
  \<^verbatim>\<open>v.k\<close> for a value \<^verbatim>\<open>v\<close> that is neither \<^verbatim>\<open>undefined\<close> nor \<^verbatim>\<open>null\<close> (on those
  the read raises a \<^verbatim>\<open>TypeError\<close>, which every caller below checks first). An object
  gives its own property or \<^verbatim>\<open>undefined\<close>; an array and a string have a \<^verbatim>\<open>length\<close>;
  no other member of a prototype is among the keys this module reads.
\<close>

fun js_prop :: "jsval \<Rightarrow> string \<Rightarrow> jsval" where
  "js_prop (Obj fs) k = (case map_of fs k of Some v \<Rightarrow> v | None \<Rightarrow> Undefined)"
| "js_prop (Arr xs) k = (if k = ''length'' then Num (int (length xs)) else Undefined)"
| "js_prop (Str s) k = (if k = ''length'' then Num (int (length s)) else Undefined)"
| "js_prop v k = Undefined"

text \<open>\<^verbatim>\<open>v.map\<close> is a function on arrays only; on any other value the call raises.\<close>

fun js_map :: "jsval \<Rightarrow> error + jsval list" where
  "js_map (Arr xs) = Inr xs"
| "js_map v = Inl TypeError"

text \<open>\<^verbatim>\<open>required.includes(key)\<close>: membership in an array, a substring test on a
  string, and a \<^verbatim>\<open>TypeError\<close> on a value without the method.\<close>

fun js_includes :: "jsval \<Rightarrow> string \<Rightarrow> error + bool" where
  "js_includes (Arr xs) key = Inr (Str key \<in> set xs)"
| "js_includes (Str s) key = Inr (sublist key s)"
| "js_includes v key = Inl TypeError"

text \<open>
  The order in which \<^verbatim>\<open>Object.keys\<close> (and with it \<^verbatim>\<open>_.values\<close>) lists the own properties
  of an object: first the keys that are array indices, in ascending numeric order,
  then the other keys in insertion order. A key is an array index when it is the
  decimal numeral, as \<^verbatim>\<open>String(n)\<close> prints it, of an integer \<^verbatim>\<open>n\<close> from 0 to \<^verbatim>\<open>2^32 - 2\<close>.
\<close>

definition digit_value :: "char \<Rightarrow> nat" where
  "digit_value c = of_char c - 48"

definition parse_nat :: "string \<Rightarrow> nat" where
  "parse_nat s = foldl (\<lambda>n c. 10 * n + digit_value c) 0 s"

definition array_index :: "string \<Rightarrow> nat option" where
  "array_index k =
     (let n = parse_nat k in if show_nat n = k \<and> n < 4294967295 then Some n else None)"

definition index_of_key :: "string \<times> 'a \<Rightarrow> nat" where
  "index_of_key p = (case array_index (fst p) of Some n \<Rightarrow> n | None \<Rightarrow> 0)"

definition key_order :: "(string \<times> 'a) list \<Rightarrow> (string \<times> 'a) list" where
  "key_order al =
     sort_key index_of_key (filter (\<lambda>p. array_index (fst p) \<noteq> None) al) @
     filter (\<lambda>p. array_index (fst p) = None) al"

text \<open>
  The pairs \<^verbatim>\<open>(key, properties[key])\<close> for \<^verbatim>\<open>key\<close> in \<^verbatim>\<open>Object.keys(properties)\<close>, in
  the order of \<^verbatim>\<open>Object.keys\<close>: the own keys of an object in that order, the indices
  of an array or a string, nothing for a number or a boolean.
\<close>

fun own_entries :: "jsval \<Rightarrow> (string \<times> jsval) list" where
  "own_entries (Obj fs) = key_order (AList.clearjunk fs)"
| "own_entries (Arr xs) = map (\<lambda>(i, x). (show_nat i, x)) (enumerate 0 xs)"
| "own_entries (Str s) = map (\<lambda>(i, c). (show_nat i, Str [c])) (enumerate 0 s)"
| "own_entries v = []"

text \<open>
  The lodash helpers, from their documentation. \<^verbatim>\<open>_.get(object, 'a.b')\<close> reads the path
  \<^verbatim>\<open>a\<close>, \<^verbatim>\<open>b\<close> and gives \<^verbatim>\<open>undefined\<close> as soon as a step is \<^verbatim>\<open>undefined\<close> or \<^verbatim>\<open>null\<close> (the
  object is taken to have no own key that is literally the dotted path);
  \<^verbatim>\<open>_.isPlainObject\<close> holds of objects only, not of arrays or \<^verbatim>\<open>null\<close>;
  \<^verbatim>\<open>_.omit(object, key)\<close> copies the object without its own property \<^verbatim>\<open>key\<close>.
\<close>

fun lodash_get :: "jsval \<Rightarrow> string list \<Rightarrow> jsval" where
  "lodash_get v [] = v"
| "lodash_get v (k # ks) = (if nullish v then Undefined else lodash_get (js_prop v k) ks)"

fun isPlainObject :: "jsval \<Rightarrow> bool" where
  "isPlainObject (Obj fs) = True"
| "isPlainObject v = False"

fun omit :: "jsval \<Rightarrow> string \<Rightarrow> jsval" where
  "omit (Obj fs) key = Obj (filter (\<lambda>(k, v). k \<noteq> key) fs)"
| "omit v key = v"

subsection \<open>Errors\<close>

definition bindE :: "error + 'a \<Rightarrow> ('a \<Rightarrow> error + 'b) \<Rightarrow> error + 'b" where
  "bindE m f = (case m of Inl e \<Rightarrow> Inl e | Inr x \<Rightarrow> f x)"

lemma bindE_cong [fundef_cong]:
  "m = m' \<Longrightarrow> (\<And>x. m' = Inr x \<Longrightarrow> f x = f' x) \<Longrightarrow> bindE m f = bindE m' f'"
  by (auto simp: bindE_def split: sum.splits)

lemma bindE_simps [simp]:
  "bindE (Inl e) f = Inl e"
  "bindE (Inr x) f = f x"
  by (simp_all add: bindE_def)

text \<open>The results of \<^verbatim>\<open>xs.map(f)\<close> when \<^verbatim>\<open>f\<close> can raise: the first error, from left to
  right, ends the whole call.\<close>

fun sequenceE :: "(error + 'a) list \<Rightarrow> error + 'a list" where
  "sequenceE [] = Inr []"
| "sequenceE (r # rs) = bindE r (\<lambda>x. bindE (sequenceE rs) (\<lambda>xs. Inr (x # xs)))"

section \<open>The collaborators\<close>

text \<open>
  What the module requires from outside its file: \<^verbatim>\<open>util.inspect\<close>, the constant
  \<^verbatim>\<open>SKIP_KEY\<close> of \<^verbatim>\<open>../constants\<close>, \<^verbatim>\<open>links.anchor\<close> and \<^verbatim>\<open>links.makeCodeLink\<close>,
  \<^verbatim>\<open>packageJson.version\<close> and \<^verbatim>\<open>toc.insert\<close>. They are parameters of the model.
  \<^verbatim>\<open>util.inspect\<close> is called in two ways: with the options
  \<^verbatim>\<open>{ depth: null, breakLength: Infinity }\<close> by \<^verbatim>\<open>formatExample\<close>, and as the callback of
  \<^verbatim>\<open>schema.enum.map\<close>, which passes the index and the array after the member.
  \<^verbatim>\<open>toc.insert\<close> is called with the options \<^verbatim>\<open>{ maxdepth: 2, bullets: '*' }\<close>.
\<close>

datatype inspect_args = ExampleOptions | MapArguments nat "jsval list"

record externals =
  inspect :: "jsval \<Rightarrow> inspect_args \<Rightarrow> string"
  SKIP_KEY :: string
  anchor :: "jsval \<Rightarrow> string"
  makeCodeLink :: "string \<Rightarrow> string"
  version :: jsval
  toc_insert :: "string \<Rightarrow> nat \<Rightarrow> string \<Rightarrow> string"

definition NO_DESCRIPTION :: string where
  "NO_DESCRIPTION = ''_No description given._''"

definition COMBOS :: "string list" where
  "COMBOS = [''anyOf'', ''allOf'', ''oneOf'']"

section \<open>Rendering values\<close>

text \<open>\<^verbatim>\<open>formatExample\<close>.\<close>

definition formatExample :: "externals \<Rightarrow> jsval \<Rightarrow> error + string" where
  "formatExample ext example =
     (let ex = (if isPlainObject example then omit example (SKIP_KEY ext) else example) in
      bindE (quoteOrNa (Str (inspect ext ex ExampleOptions))) (\<lambda>q. Inr (''* '' @ q)))"

text \<open>\<^verbatim>\<open>v && v.length\<close>, the test of \<^verbatim>\<open>typeOrLink\<close> on a combinator and on \<^verbatim>\<open>enum\<close>.\<close>

definition present_nonempty :: "jsval \<Rightarrow> bool" where
  "present_nonempty v = (truthy v \<and> truthy (js_prop v ''length''))"

text \<open>\<^verbatim>\<open>typeOrLink\<close>. The loop over \<^verbatim>\<open>COMBOS\<close> returns at the first key whose value passes
  that test.\<close>

function typeOrLink :: "externals \<Rightarrow> jsval \<Rightarrow> error + string" where
  "typeOrLink ext schema =
     (if nullish schema then Inl TypeError
      else if js_prop schema ''type'' = Str ''array'' \<and> truthy (js_prop schema ''items'') then
        bindE (quoteOrNa (js_prop schema ''type'')) (\<lambda>q.
        bindE (typeOrLink ext (js_prop schema ''items'')) (\<lambda>t.
        Inr (q @ ''['' @ t @ '']'')))
      else if truthy (js_prop schema ''$ref'') then
        Inr (''['' @ to_string (js_prop schema ''$ref'') @ '']('' @
             anchor ext (js_prop schema ''$ref'') @ '')'')
      else
        (case find (\<lambda>key. present_nonempty (js_prop schema key)) COMBOS of
           Some key \<Rightarrow>
             bindE (js_map (js_prop schema key)) (\<lambda>members.
             bindE (sequenceE (map (typeOrLink ext) members)) (\<lambda>ts.
             Inr (key @ ''('' @ join '', '' ts @ '')'')))
         | None \<Rightarrow>
             if present_nonempty (js_prop schema ''enum'') then
               bindE (quoteOrNa (js_prop schema ''type'')) (\<lambda>q.
               bindE (js_map (js_prop schema ''enum'')) (\<lambda>members.
               bindE (sequenceE
                        (map (\<lambda>(i, m). quoteOrNa (Str (inspect ext m (MapArguments i members))))
                           (enumerate 0 members))) (\<lambda>ms.
               Inr (q @ '' in ('' @ join '', '' ms @ '')''))))
             else quoteOrNa (js_prop schema ''type'')))"
  by pat_completeness auto
termination
proof (relation "measure (\<lambda>(ext, schema). size schema)")
  have lookup: "size v < size (Obj fs)" if "map_of fs k = Some v" for fs k v
    using that by (induction fs) (auto split: if_splits)
  have sub: "size (js_prop v k) < size v"
    if "js_prop v k \<noteq> Undefined" "\<forall>n. js_prop v k \<noteq> Num n" for v k
    using that lookup by (cases v) (auto split: option.splits if_splits)
  show "wf (measure (\<lambda>(ext :: externals, schema). size schema))" by simp
  show "((ext, js_prop schema ''items''), ext, schema) \<in> measure (\<lambda>(ext, schema). size schema)"
    if "\<not> nullish schema"
      "js_prop schema ''type'' = Str ''array'' \<and> truthy (js_prop schema ''items'')"
    for ext :: externals and schema
  proof -
    from that obtain fs where "schema = Obj fs" by (cases schema) (auto split: if_splits)
    with that lookup [of fs "''items''"] show ?thesis by (auto split: option.splits)
  qed
  show "((ext, z), ext, schema) \<in> measure (\<lambda>(ext, schema). size schema)"
    if "js_map (js_prop schema key) = Inr members" "z \<in> set members"
    for ext :: externals and schema key members z
  proof -
    from that have m: "js_prop schema key = Arr members" by (cases "js_prop schema key") auto
    then have "size (Arr members) < size schema" using sub [of schema key] by auto
    moreover have "size z < size (Arr members)" using that(2) by (induction members) auto
    ultimately show ?thesis by simp
  qed
qed

declare typeOrLink.simps [simp del]

section \<open>The schema graph\<close>

text \<open>
  A \<^verbatim>\<open>Schema\<close> is an object with an \<^verbatim>\<open>id\<close>, a \<^verbatim>\<open>schema\<close> and the array \<^verbatim>\<open>dependencies\<close> of
  references to other such objects. References can be shared and can form a cycle,
  so the objects live in a store: an address stands for a reference, and every
  address holds an object (a reference never dangles).
\<close>

type_synonym addr = nat

record SchemaNode =
  id_str :: string
  schema :: jsval
  dependencies :: "addr list"

type_synonym heap = "addr \<Rightarrow> SchemaNode"

text \<open>
  \<^verbatim>\<open>walkSchemas\<close>: \<^verbatim>\<open>recurse\<close> calls the callback on the node and then itself on every
  dependency, in order. The callback updates what it closes over, here a state
  \<^verbatim>\<open>'s\<close>. Nothing in the code stops the recursion but the end of the \<^verbatim>\<open>dependencies\<close>
  arrays; the engine stops it when the call stack is full. The first argument is
  the number of nested calls of \<^verbatim>\<open>recurse\<close> that the call stack admits, and \<^verbatim>\<open>None\<close> is
  the \<^verbatim>\<open>RangeError\<close> (maximum call stack size exceeded) that the engine raises when
  one more is needed.
\<close>

fun recurse ::
  "nat \<Rightarrow> heap \<Rightarrow> addr \<Rightarrow> (addr \<Rightarrow> addr list \<Rightarrow> 's \<Rightarrow> 's) \<Rightarrow> addr \<Rightarrow> addr list \<Rightarrow> 's \<Rightarrow> 's option"
and recurse_deps ::
  "nat \<Rightarrow> heap \<Rightarrow> addr \<Rightarrow> (addr \<Rightarrow> addr list \<Rightarrow> 's \<Rightarrow> 's) \<Rightarrow> addr list \<Rightarrow> addr list \<Rightarrow> 's \<Rightarrow> 's option"
where
  "recurse 0 h InitSchema callback a parents s = None"
| "recurse (Suc n) h InitSchema callback a parents s =
     recurse_deps n h InitSchema callback (dependencies (h a)) (parents @ [InitSchema])
       (callback a parents s)"
| "recurse_deps n h InitSchema callback [] newParents s = Some s"
| "recurse_deps n h InitSchema callback (c # cs) newParents s =
     (case recurse n h InitSchema callback c newParents s of
        None \<Rightarrow> None
      | Some s' \<Rightarrow> recurse_deps n h InitSchema callback cs newParents s')"

definition walkSchemas ::
  "nat \<Rightarrow> heap \<Rightarrow> addr \<Rightarrow> (addr \<Rightarrow> addr list \<Rightarrow> 's \<Rightarrow> 's) \<Rightarrow> 's \<Rightarrow> 's option" where
  "walkSchemas n h InitSchema callback s = recurse n h InitSchema callback InitSchema [] s"

text \<open>
  \<^verbatim>\<open>collectSchemas\<close>: the callback is \<^verbatim>\<open>schemas[Schema.id] = Schema\<close>, on the plain object
  \<^verbatim>\<open>schemas = {}\<close>. The own properties of \<^verbatim>\<open>schemas\<close> are an association list in insertion
  order; assigning to a key it has keeps the key's place and replaces the value.
  Assigning to the key \<^verbatim>\<open>__proto__\<close> calls the setter that \<^verbatim>\<open>schemas\<close> inherits from
  \<^verbatim>\<open>Object.prototype\<close>: it replaces the prototype of \<^verbatim>\<open>schemas\<close> by the node and adds no
  own property (\<^verbatim>\<open>_.values\<close> reads the own properties only). The order in which the
  keys are listed is that of \<^verbatim>\<open>key_order\<close>; it is applied where \<^verbatim>\<open>buildDocs\<close> reads the values.
\<close>

definition record_schema ::
  "heap \<Rightarrow> addr \<Rightarrow> addr list \<Rightarrow> (string \<times> addr) list \<Rightarrow> (string \<times> addr) list" where
  "record_schema h a parents schemas =
     (if id_str (h a) = ''__proto__'' then schemas
      else AList.update (id_str (h a)) a schemas)"

definition collectSchemas :: "nat \<Rightarrow> heap \<Rightarrow> addr \<Rightarrow> (string \<times> addr) list option" where
  "collectSchemas n h InitSchema = walkSchemas n h InitSchema (record_schema h) []"

text \<open>A callback that logs each call, to observe the traversal itself.\<close>

definition log_visit :: "addr \<Rightarrow> addr list \<Rightarrow> addr list \<Rightarrow> addr list" where
  "log_visit a parents log = log @ [a]"

definition visits :: "nat \<Rightarrow> heap \<Rightarrow> addr \<Rightarrow> addr list option" where
  "visits n h InitSchema = walkSchemas n h InitSchema log_visit []"

text \<open>The nodes reachable from a node, or from the nodes of a list, along
  \<^verbatim>\<open>dependencies\<close>.\<close>

definition edges :: "heap \<Rightarrow> (addr \<times> addr) set" where
  "edges h = {(a, c). c \<in> set (dependencies (h a))}"

definition reach :: "heap \<Rightarrow> addr \<Rightarrow> addr set" where
  "reach h a = {c. (a, c) \<in> (edges h)\<^sup>*}"

definition reach_list :: "heap \<Rightarrow> addr list \<Rightarrow> addr set" where
  "reach_list h cs = (\<Union>c\<in>set cs. reach h c)"

text \<open>\<^verbatim>\<open>path_from h n a\<close>: a path of \<^verbatim>\<open>n\<close> edges along \<^verbatim>\<open>dependencies\<close> starts at \<^verbatim>\<open>a\<close>.
  \<^verbatim>\<open>paths h k r a\<close>: the number of paths of \<^verbatim>\<open>k\<close> edges from \<^verbatim>\<open>r\<close> to \<^verbatim>\<open>a\<close>, an edge being a
  place in a \<^verbatim>\<open>dependencies\<close> array.\<close>

fun path_from :: "heap \<Rightarrow> nat \<Rightarrow> addr \<Rightarrow> bool" where
  "path_from h 0 a = True"
| "path_from h (Suc n) a = (\<exists>c\<in>set (dependencies (h a)). path_from h n c)"

fun paths :: "heap \<Rightarrow> nat \<Rightarrow> addr \<Rightarrow> addr \<Rightarrow> nat" where
  "paths h 0 r a = (if r = a then 1 else 0)"
| "paths h (Suc k) r a = sum_list (map (\<lambda>c. paths h k c a) (dependencies (h r)))"

text \<open>What a traversal of the nodes \<^verbatim>\<open>A\<close> adds to \<^verbatim>\<open>schemas\<close>: the keys are the old
  keys and the ids of \<^verbatim>\<open>A\<close> other than \<^verbatim>\<open>__proto__\<close>, no key is listed twice, and a new
  entry holds a node of \<^verbatim>\<open>A\<close> under its own id.\<close>

definition named :: "heap \<Rightarrow> addr set \<Rightarrow> addr set" where
  "named h A = {a \<in> A. id_str (h a) \<noteq> ''__proto__''}"

definition collected ::
  "heap \<Rightarrow> addr set \<Rightarrow> (string \<times> addr) list \<Rightarrow> (string \<times> addr) list \<Rightarrow> bool" where
  "collected h A m m' \<longleftrightarrow>
     fst ` set m' = fst ` set m \<union> (\<lambda>a. id_str (h a)) ` named h A \<and>
     (distinct (map fst m) \<longrightarrow> distinct (map fst m')) \<and>
     set m' \<subseteq> set m \<union> (\<lambda>a. (id_str (h a), a)) ` named h A"

text \<open>
  Two graphs for the examples. In \<^verbatim>\<open>diamond_graph\<close> the node \<^verbatim>\<open>/D\<close> (with its dependency
  \<^verbatim>\<open>/E\<close>) is a dependency of both \<^verbatim>\<open>/B\<close> and \<^verbatim>\<open>/C\<close>; in \<^verbatim>\<open>cyclic_graph\<close> the node \<^verbatim>\<open>/B\<close>
  depends on its ancestor \<^verbatim>\<open>/A\<close>.
\<close>

definition diamond_graph :: heap where
  "diamond_graph a =
     (if a = 0 then \<lparr>id_str = ''/A'', schema = Obj [], dependencies = [1, 2]\<rparr>
      else if a = 1 then \<lparr>id_str = ''/B'', schema = Obj [], dependencies = [3]\<rparr>
      else if a = 2 then \<lparr>id_str = ''/C'', schema = Obj [], dependencies = [3]\<rparr>
      else if a = 3 then \<lparr>id_str = ''/D'', schema = Obj [], dependencies = [4]\<rparr>
      else \<lparr>id_str = ''/E'', schema = Obj [], dependencies = []\<rparr>)"

text \<open>A root whose id is \<^verbatim>\<open>__proto__\<close>, with one dependency.\<close>

definition proto_graph :: heap where
  "proto_graph a =
     (if a = 0 then \<lparr>id_str = ''__proto__'', schema = Obj [], dependencies = [1]\<rparr>
      else \<lparr>id_str = ''/B'', schema = Obj [], dependencies = []\<rparr>)"

definition cyclic_graph :: heap where
  "cyclic_graph a =
     (if a = 0 then \<lparr>id_str = ''/A'', schema = Obj [], dependencies = [1]\<rparr>
      else \<lparr>id_str = ''/B'', schema = Obj [], dependencies = [0]\<rparr>)"

section \<open>Rendering schemas\<close>

text \<open>\<^verbatim>\<open>makeExampleSection\<close> and \<^verbatim>\<open>makeAntiExampleSection\<close>.\<close>

definition makeExampleSection :: "externals \<Rightarrow> SchemaNode \<Rightarrow> error + string" where
  "makeExampleSection ext Schema =
     (if nullish (schema Schema) then Inl TypeError
      else
        let examples = or_else (js_prop (schema Schema) ''examples'') (Arr []) in
        if \<not> truthy (js_prop examples ''length'') then Inr []
        else
          bindE (js_map examples) (\<lambda>xs.
          bindE (sequenceE (map (formatExample ext) xs)) (\<lambda>lines.
          Inr (''#### Examples'' @ nl @ nl @ join nl lines @ nl))))"

definition makeAntiExampleSection :: "externals \<Rightarrow> SchemaNode \<Rightarrow> error + string" where
  "makeAntiExampleSection ext Schema =
     (if nullish (schema Schema) then Inl TypeError
      else
        let examples = or_else (js_prop (schema Schema) ''antiExamples'') (Arr []) in
        if \<not> truthy (js_prop examples ''length'') then Inr []
        else
          bindE (js_map examples) (\<lambda>xs.
          bindE (sequenceE (map (formatExample ext) xs)) (\<lambda>lines.
          Inr (''#### Anti-Examples'' @ nl @ nl @ join nl lines @ nl))))"

text \<open>\<^verbatim>\<open>processProperty\<close>, in two steps: \<^verbatim>\<open>required_text\<close> is the value of \<^verbatim>\<open>isRequired\<close>
  after the \<^verbatim>\<open>if\<close> (or the error thrown there), as the template prints it;
  \<^verbatim>\<open>processProperty\<close> is the template. The annotation is read again by
  \<^verbatim>\<open>property.docAnnotation.required\<close>, which is the value \<^verbatim>\<open>_.get\<close> found truthy.\<close>

definition required_text :: "jsval \<Rightarrow> bool \<Rightarrow> error + string" where
  "required_text property propIsRequired =
     (let isRequired = (if propIsRequired then ''**yes**'' else ''no'') in
      if truthy (lodash_get property [''docAnnotation'', ''required'']) then
        let annotation = js_prop (js_prop property ''docAnnotation'') ''required'' in
        if js_prop annotation ''type'' = Str ''replace'' then
          Inr (to_string (js_prop annotation ''value''))
        else if js_prop annotation ''type'' = Str ''append'' then
          Inr (isRequired @ to_string (js_prop annotation ''value''))
        else
          Inl (Error (''unrecognized docAnnotation type: '' @
                      to_string (js_prop annotation ''type'')))
      else Inr isRequired)"

definition processProperty :: "externals \<Rightarrow> string \<Rightarrow> jsval \<Rightarrow> bool \<Rightarrow> error + string" where
  "processProperty ext key property propIsRequired =
     bindE (required_text property propIsRequired) (\<lambda>isRequired.
     bindE (quoteOrNa (Str key)) (\<lambda>k.
     bindE (typeOrLink ext property) (\<lambda>t.
     Inr (k @ '' | '' @ isRequired @ '' | '' @ t @ '' | '' @
          to_string (or_else (js_prop property ''description'') (Str NO_DESCRIPTION))))))"

text \<open>\<^verbatim>\<open>makePropertiesSection\<close>.\<close>

definition makePropertiesSection :: "externals \<Rightarrow> SchemaNode \<Rightarrow> error + string" where
  "makePropertiesSection ext Schema =
     (if nullish (schema Schema) then Inl TypeError
      else
        let properties =
              or_else (js_prop (schema Schema) ''properties'')
                (or_else (js_prop (schema Schema) ''patternProperties'') (Obj [])) in
        if length (own_entries properties) = 0 then Inr []
        else
          let required = or_else (js_prop (schema Schema) ''required'') (Arr []) in
          bindE (sequenceE
                   (map (\<lambda>(key, property).
                           bindE (js_includes required key) (\<lambda>propIsRequired.
                           processProperty ext key property propIsRequired))
                      (own_entries properties))) (\<lambda>rows.
          Inr (''#### Properties'' @ nl @ nl @
               ''Key | Required | Type | Description'' @ nl @
               ''--- | -------- | ---- | -----------'' @ nl @
               join nl rows @ nl)))"

text \<open>\<^verbatim>\<open>makeMarkdownSection\<close>.\<close>

definition makeMarkdownSection :: "externals \<Rightarrow> SchemaNode \<Rightarrow> error + string" where
  "makeMarkdownSection ext Schema =
     (if nullish (schema Schema) then Inl TypeError
      else
        let description =
              to_string (or_else (js_prop (schema Schema) ''description'') (Str NO_DESCRIPTION)) in
        bindE (typeOrLink ext (schema Schema)) (\<lambda>t.
        bindE (quoteOrNa (js_prop (schema Schema) ''pattern'')) (\<lambda>pattern.
        bindE (makeExampleSection ext Schema) (\<lambda>examples.
        bindE (makeAntiExampleSection ext Schema) (\<lambda>antiExamples.
        bindE (makePropertiesSection ext Schema) (\<lambda>properties.
        Inr (trim
          (''## '' @ id_str Schema @ nl @ nl @
           description @ nl @ nl @
           ''#### Details'' @ nl @ nl @
           ''* **Type** - '' @ t @ nl @
           ''* **Pattern** - '' @ pattern @ nl @
           ''* **Source Code** - [lib/schemas'' @ id_str Schema @ ''.js]('' @
             makeCodeLink ext (id_str Schema) @ '')'' @ nl @ nl @
           examples @ nl @
           antiExamples @ nl @
           properties @ nl))))))))"

text \<open>
  \<^verbatim>\<open>buildDocs\<close>, in steps. \<^verbatim>\<open>sorted_schemas\<close> is \<^verbatim>\<open>_.chain(schemas).values().sortBy('id')\<close>:
  the values of \<^verbatim>\<open>schemas\<close> in the order of its keys, sorted by \<^verbatim>\<open>id\<close> with a stable
  sort, strings compared code unit by code unit. \<^verbatim>\<open>document\<close> is the template \<^verbatim>\<open>docs\<close>
  with its \<^verbatim>\<open>trim\<close>. \<^verbatim>\<open>render\<close> is all that follows \<^verbatim>\<open>collectSchemas\<close>. The lodash chain
  is lazy (from its documentation): \<^verbatim>\<open>markdownSections\<close> is a wrapper, and its value is
  computed when the template converts it to a string. So the template first
  evaluates \<^verbatim>\<open>quoteOrNa(packageJson.version)\<close>, then renders every value, in the sorted
  order, the first error ending the build, and joins the sections; \<^verbatim>\<open>toc.insert\<close> is
  called on the document. \<^verbatim>\<open>None\<close> is the traversal that did not return.
\<close>

definition document :: "string \<Rightarrow> string \<Rightarrow> string" where
  "document versionText markdownSections =
     trim
       (''<!-- {% raw %} -->'' @ nl @
        ''# `zapier-platform-schema` Generated Documentation'' @ nl @ nl @
        ''This is automatically generated by the `npm run docs` command in `zapier-platform-schema` version '' @
          versionText @ ''.'' @ nl @ nl @
        ''-----'' @ nl @ nl @
        ''## Index'' @ nl @
        ''<!-- toc -->'' @ nl @ nl @
        ''-----'' @ nl @ nl @
        markdownSections @ nl @
        ''<!-- {% endraw %} -->'' @ nl)"

definition sorted_schemas :: "heap \<Rightarrow> (string \<times> addr) list \<Rightarrow> addr list" where
  "sorted_schemas h schemas = sort_key (\<lambda>a. id_str (h a)) (map snd (key_order schemas))"

definition render :: "externals \<Rightarrow> heap \<Rightarrow> (string \<times> addr) list \<Rightarrow> error + string" where
  "render ext h schemas =
     bindE (quoteOrNa (version ext)) (\<lambda>versionText.
     bindE (sequenceE (map (\<lambda>a. makeMarkdownSection ext (h a)) (sorted_schemas h schemas)))
       (\<lambda>sections.
     Inr (toc_insert ext
            (document versionText (join (nl @ nl @ ''-----'' @ nl @ nl) sections)) 2 ''*'')))"

definition buildDocs :: "externals \<Rightarrow> nat \<Rightarrow> heap \<Rightarrow> addr \<Rightarrow> (error + string) option" where
  "buildDocs ext n h InitSchema = map_option (render ext h) (collectSchemas n h InitSchema)"

section \<open>An instance of the collaborators\<close>

text \<open>
  Modelled from the spec: the collaborators (\<^verbatim>\<open>util.inspect\<close>, \<^verbatim>\<open>lib/constants.js\<close>,
  \<^verbatim>\<open>lib/utils/links.js\<close>, \<^verbatim>\<open>package.json\<close>, \<^verbatim>\<open>markdown-toc\<close>) are not in the file. This
  instance serves the examples: \<^verbatim>\<open>inspect_value\<close> prints a value the way a "pretty-print
  any value with unlimited depth and no max line length" formatter does, a string
  between single quotes (for strings without quotes and keys that are identifiers);
  the anchor, the code link and the version are arbitrary, and the table of contents
  is left out.
\<close>

fun inspect_value :: "jsval \<Rightarrow> string" where
  "inspect_value Undefined = ''undefined''"
| "inspect_value Null = ''null''"
| "inspect_value (Bool b) = (if b then ''true'' else ''false'')"
| "inspect_value (Num n) = show_int n"
| "inspect_value (Str s) = [CHR 0x27] @ s @ [CHR 0x27]"
| "inspect_value (Arr xs) =
     (if xs = [] then ''[]'' else ''[ '' @ join '', '' (map inspect_value xs) @ '' ]'')"
| "inspect_value (Obj fs) =
     (if fs = [] then ''{}''
      else ''{ '' @ join '', '' (map (\<lambda>(k, v). k @ '': '' @ inspect_value v) fs) @ '' }'')"

definition sample_externals :: externals where
  "sample_externals =
     \<lparr>inspect = (\<lambda>v args. inspect_value v),
      SKIP_KEY = ''_skipTest'',
      anchor = (\<lambda>ref. ''#'' @ to_string ref),
      makeCodeLink = (\<lambda>i. ''https://example.com/lib/schemas'' @ i @ ''.js''),
      version = Str ''1.0.0'',
      toc_insert = (\<lambda>docs maxdepth bullets. docs)\<rparr>"

section \<open>Notions used in the statements\<close>

text \<open>The first test of \<^verbatim>\<open>typeOrLink\<close>, and the texts it gives for a combinator key and
  for \<^verbatim>\<open>enum\<close>.\<close>

definition array_with_items :: "jsval \<Rightarrow> bool" where
  "array_with_items s = (js_prop s ''type'' = Str ''array'' \<and> truthy (js_prop s ''items''))"

definition combo_text :: "externals \<Rightarrow> jsval \<Rightarrow> string \<Rightarrow> error + string" where
  "combo_text ext s key =
     bindE (js_map (js_prop s key)) (\<lambda>members.
     bindE (sequenceE (map (typeOrLink ext) members)) (\<lambda>ts.
     Inr (key @ ''('' @ join '', '' ts @ '')'')))"

definition enum_text :: "externals \<Rightarrow> jsval \<Rightarrow> error + string" where
  "enum_text ext s =
     bindE (quoteOrNa (js_prop s ''type'')) (\<lambda>q.
     bindE (js_map (js_prop s ''enum'')) (\<lambda>members.
     bindE (sequenceE
              (map (\<lambda>(i, m). quoteOrNa (Str (inspect ext m (MapArguments i members))))
                 (enumerate 0 members))) (\<lambda>ms.
     Inr (q @ '' in ('' @ join '', '' ms @ '')''))))"

text \<open>A schema to which every rule of \<^verbatim>\<open>typeOrLink\<close> applies.\<close>

definition all_rules_schema :: jsval where
  "all_rules_schema =
     Obj [(''enum'', Arr [Str ''a'']), (''oneOf'', Arr [Obj [(''type'', Str ''number'')]]),
          (''anyOf'', Arr [Obj [(''type'', Str ''string'')], Obj [(''$ref'', Str ''/Foo'')]]),
          (''$ref'', Str ''/Bar''),
          (''items'', Obj [(''type'', Str ''string'')]), (''type'', Str ''array'')]"

text \<open>A node with an empty \<^verbatim>\<open>examples\<close> list, no \<^verbatim>\<open>antiExamples\<close> and an empty
  \<^verbatim>\<open>properties\<close> mapping.\<close>

definition bare_schema :: SchemaNode where
  "bare_schema =
     \<lparr>id_str = ''/Bare'',
      schema = Obj [(''examples'', Arr []), (''properties'', Obj []),
                    (''patternProperties'', Obj [(''^x'', Obj [(''type'', Str ''string'')])])],
      dependencies = []\<rparr>"

text \<open>The section of the node \<^verbatim>\<open>{id: "/Foo", schema: {type: "string"}, dependencies: []}\<close>,
  and a graph that holds this node.\<close>

definition foo_section :: "externals \<Rightarrow> string" where
  "foo_section ext =
     ''## /Foo'' @ nl @ nl @
     ''_No description given._'' @ nl @ nl @
     ''#### Details'' @ nl @ nl @
     ''* **Type** - `string`'' @ nl @
     ''* **Pattern** - _n/a_'' @ nl @
     ''* **Source Code** - [lib/schemas/Foo.js]('' @ makeCodeLink ext ''/Foo'' @ '')''"

definition foo_graph :: heap where
  "foo_graph a = \<lparr>id_str = ''/Foo'', schema = Obj [(''type'', Str ''string'')], dependencies = []\<rparr>"


definition annotation_of :: "jsval \<Rightarrow> jsval" where
  "annotation_of property = lodash_get property [''docAnnotation'', ''required'']"

definition default_text :: "bool \<Rightarrow> string" where
  "default_text propIsRequired = (if propIsRequired then ''**yes**'' else ''no'')"

definition unrecognized :: "jsval \<Rightarrow> error" where
  "unrecognized annotation =
     Error (''unrecognized docAnnotation type: '' @ to_string (js_prop annotation ''type''))"




text \<open>An annotation that is truthy and whose \<^verbatim>\<open>type\<close> is neither \<^verbatim>\<open>"replace"\<close> nor
  \<^verbatim>\<open>"append"\<close>.\<close>

definition bad_annotation :: "jsval \<Rightarrow> bool" where
  "bad_annotation property \<longleftrightarrow>
     truthy (annotation_of property) \<and>
     js_prop (annotation_of property) ''type'' \<noteq> Str ''replace'' \<and>
     js_prop (annotation_of property) ''type'' \<noteq> Str ''append''"



definition bogus_property :: jsval where
  "bogus_property =
     Obj [(''type'', Str ''string''),
          (''docAnnotation'', Obj [(''required'', Obj [(''type'', Str ''bogus'')])])]"




text \<open>\<^verbatim>\<open>diamond_graph\<close> with the two dependencies of its root in the other order.\<close>

definition diamond_graph_swapped :: heap where
  "diamond_graph_swapped a =
     (if a = 0 then (diamond_graph a)\<lparr>dependencies := [2, 1]\<rparr> else diamond_graph a)"

section \<open>Properties of quoteOrNa\<close>

lemma quoteOrNa_falsy: "\<not> truthy v \<Longrightarrow> quoteOrNa v = Inr ''_n/a_''"
  by (cases v) auto

lemma str_replace_no_occurrence:
  "c \<notin> set s \<Longrightarrow> str_replace [c] [] s = s"
  by (induction s) auto

lemma str_replace_first_char:
  "c \<notin> set s \<Longrightarrow> str_replace [c] [] (s @ c # t) = s @ t"
  by (induction s) auto

text \<open>
  C3. \<^verbatim>\<open>quoteOrNa\<close> gives \<^verbatim>\<open>_n/a_\<close> for a falsy input and wraps a string in backticks
  after \<^verbatim>\<open>replace\<close>; with two backticks in the input only the first one is removed:
  \<^verbatim>\<open>quoteOrNa("a`b`c")\<close> is \<^verbatim>\<open>`ab`c`\<close>, not \<^verbatim>\<open>`abc`\<close>.
\<close>

theorem quoteOrNa_keeps_second_backtick:
  "quoteOrNa (Str [CHR ''a'', backtick, CHR ''b'', backtick, CHR ''c''])
     = Inr [backtick, CHR ''a'', CHR ''b'', backtick, CHR ''c'', backtick]
   \<and> backtick \<in> set (str_replace [backtick] [] [CHR ''a'', backtick, CHR ''b'', backtick, CHR ''c''])
   \<and> quoteOrNa (Str [CHR ''a'', backtick, CHR ''b'']) = Inr [backtick, CHR ''a'', CHR ''b'', backtick]"
  by (simp add: backtick_def)

section \<open>The order of the keys\<close>

lemma show_nat_digits: "set (show_nat n) \<subseteq> set ''0123456789''"
proof (induction n rule: show_nat.induct)
  case (1 n)
  have d: "digit m \<in> set ''0123456789''" for m
  proof -
    have "m mod 10 < length ''0123456789''" by simp
    then show ?thesis unfolding digit_def by (rule nth_mem)
  qed
  show ?case
  proof (cases "n < 10")
    case True
    then show ?thesis using d [of n] by (subst show_nat.simps) simp
  next
    case False
    with 1 d [of n] show ?thesis by (subst show_nat.simps) simp
  qed
qed

text \<open>A key with a character that is no digit is no array index.\<close>

lemma array_index_non_digit:
  "c \<in> set k \<Longrightarrow> c \<notin> set ''0123456789'' \<Longrightarrow> array_index k = None"
  using show_nat_digits [of "parse_nat k"] by (auto simp: array_index_def Let_def)

lemma key_order_no_index:
  "\<forall>p\<in>set al. array_index (fst p) = None \<Longrightarrow> key_order al = al"
  by (simp add: key_order_def)

lemma key_order_single [simp]: "key_order [p] = [p]"
  by (simp add: key_order_def)

lemma key_order_Nil [simp]: "key_order [] = []"
  by (simp add: key_order_def)

lemma set_key_order [simp]: "set (key_order al) = set al"
  by (auto simp: key_order_def)

lemma distinct_map_key_order:
  assumes "distinct (map f al)"
  shows "distinct (map f (key_order al))"
proof -
  from assms have d: "distinct al" and inj: "inj_on f (set al)"
    by (simp_all add: distinct_map)
  have "distinct (key_order al)"
    using d by (auto simp: key_order_def)
  moreover have "inj_on f (set (key_order al))"
    using inj by (simp add: set_key_order)
  ultimately show ?thesis
    by (simp add: distinct_map)
qed

lemma array_index_first_non_digit:
  "c \<notin> set ''0123456789'' \<Longrightarrow> array_index (c # cs) = None"
  by (rule array_index_non_digit [of c]) simp_all

section \<open>The traversal\<close>

lemma reach_unfold:
  "reach h a = insert a (\<Union>c\<in>set (dependencies (h a)). reach h c)"
proof -
  have "(a, x) \<in> (edges h)\<^sup>* \<longleftrightarrow> x = a \<or> (\<exists>c. (a, c) \<in> edges h \<and> (c, x) \<in> (edges h)\<^sup>*)" for x
  proof
    assume "(a, x) \<in> (edges h)\<^sup>*"
    then show "x = a \<or> (\<exists>c. (a, c) \<in> edges h \<and> (c, x) \<in> (edges h)\<^sup>*)"
      by (cases rule: converse_rtranclE) auto
  next
    assume "x = a \<or> (\<exists>c. (a, c) \<in> edges h \<and> (c, x) \<in> (edges h)\<^sup>*)"
    then show "(a, x) \<in> (edges h)\<^sup>*"
      by (auto intro: converse_rtrancl_into_rtrancl)
  qed
  then have "reach h a = insert a {x. \<exists>c. (a, c) \<in> edges h \<and> (c, x) \<in> (edges h)\<^sup>*}"
    unfolding reach_def by blast
  also have "{x. \<exists>c. (a, c) \<in> edges h \<and> (c, x) \<in> (edges h)\<^sup>*} = (\<Union>c\<in>set (dependencies (h a)). reach h c)"
    unfolding reach_def edges_def by blast
  finally show ?thesis .
qed

lemma reach_self: "a \<in> reach h a"
  by (simp add: reach_def)

lemma reach_list_simps [simp]:
  "reach_list h [] = {}"
  "reach_list h (c # cs) = reach h c \<union> reach_list h cs"
  by (auto simp: reach_list_def)

lemma reach_eq: "reach h a = insert a (reach_list h (dependencies (h a)))"
  unfolding reach_list_def by (rule reach_unfold)

text \<open>The log of a traversal that returns holds exactly the reachable nodes.\<close>

lemma recurse_deps_log:
  assumes IH: "\<And>c ps (log :: addr list) log'. recurse n h i log_visit c ps log = Some log'
      \<Longrightarrow> set log' = set log \<union> reach h c"
  shows "recurse_deps n h i log_visit cs ps log = Some log'
      \<Longrightarrow> set log' = set log \<union> reach_list h cs"
proof (induction cs arbitrary: log)
  case Nil
  then show ?case by simp
next
  case (Cons c cs)
  then show ?case
    by (auto split: option.splits dest!: IH)
qed

lemma recurse_log:
  "recurse n h i log_visit a ps log = Some log'
     \<Longrightarrow> set log' = set log \<union> reach h a"
proof (induction n arbitrary: a ps log log')
  case 0
  then show ?case by simp
next
  case (Suc n)
  from Suc.prems have "recurse_deps n h i log_visit (dependencies (h a))
      (ps @ [i]) (log @ [a]) = Some log'"
    by (simp add: log_visit_def [of a ps log])
  then have "set log' = set (log @ [a]) \<union> reach_list h (dependencies (h a))"
    using Suc.IH by (intro recurse_deps_log) auto
  then show ?case
    by (subst reach_eq) auto
qed

text \<open>When every dependency of a reachable node has a smaller rank, the traversal
  returns, whatever the callback, once the bound exceeds the rank of the root.\<close>

lemma recurse_deps_returns:
  assumes IH: "\<And>c ps s. c \<in> set cs \<Longrightarrow> \<exists>s'. recurse n h i cb c ps s = Some s'"
  shows "\<exists>s'. recurse_deps n h i cb cs ps s = Some s'"
  using IH
proof (induction cs arbitrary: s)
  case Nil
  then show ?case by simp
next
  case (Cons c cs)
  from Cons.prems [of c ps s] obtain s1 where "recurse n h i cb c ps s = Some s1" by auto
  moreover from Cons.IH [of s1] Cons.prems obtain s2 where "recurse_deps n h i cb cs ps s1 = Some s2"
    by auto
  ultimately show ?case by simp
qed

lemma recurse_returns:
  assumes rank: "\<forall>a\<in>reach h r. \<forall>c\<in>set (dependencies (h a)). rank c < (rank a :: nat)"
  shows "a \<in> reach h r \<Longrightarrow> rank a < n \<Longrightarrow> \<exists>s'. recurse n h i cb a ps s = Some s'"
proof (induction n arbitrary: a ps s)
  case 0
  then show ?case by simp
next
  case (Suc n)
  have "\<exists>s'. recurse n h i cb c ps' s1 = Some s'" if "c \<in> set (dependencies (h a))" for c ps' s1
  proof -
    from that have "(a, c) \<in> edges h" by (simp add: edges_def)
    with Suc.prems(1) have "c \<in> reach h r"
      unfolding reach_def by (simp add: rtrancl_into_rtrancl)
    moreover from rank that Suc.prems have "rank c < n" by fastforce
    ultimately show ?thesis by (rule Suc.IH)
  qed
  then show ?case
    using recurse_deps_returns [of "dependencies (h a)" n h i cb] by simp
qed

text \<open>From a node that reaches a cycle the traversal returns for no bound.\<close>

lemma recurse_deps_None:
  "c \<in> set cs \<Longrightarrow> (\<And>ps s. recurse n h i cb c ps s = None) \<Longrightarrow> recurse_deps n h i cb cs ps s = None"
  by (induction cs arbitrary: s) (auto split: option.splits)

lemma recurse_cycle:
  "c \<in> reach h a \<Longrightarrow> (c, c) \<in> (edges h)\<^sup>+ \<Longrightarrow> recurse n h i cb a ps s = None"
proof (induction n arbitrary: a ps s)
  case 0
  then show ?case by simp
next
  case (Suc n)
  have "\<exists>d. (a, d) \<in> edges h \<and> c \<in> reach h d"
  proof (cases "a = c")
    case True
    from tranclD [OF Suc.prems(2)] True show ?thesis
      unfolding reach_def by blast
  next
    case False
    from Suc.prems(1) have "(a, c) \<in> (edges h)\<^sup>*" by (simp add: reach_def)
    then show ?thesis
      using False unfolding reach_def by (cases rule: converse_rtranclE) auto
  qed
  then obtain d where d: "d \<in> set (dependencies (h a))" "c \<in> reach h d"
    by (auto simp: edges_def)
  have "recurse n h i cb d ps' s' = None" for ps' s'
    using d(2) Suc.prems(2) by (rule Suc.IH)
  with d(1) show ?case
    by (simp add: recurse_deps_None)
qed

text \<open>What \<^verbatim>\<open>collectSchemas\<close> has recorded when it returns.\<close>

lemma set_update_subset: "set (AList.update k v al) \<subseteq> insert (k, v) (set al)"
  by (induction al) auto

lemma named_simps [simp]:
  "named h {} = {}"
  "named h (A \<union> B) = named h A \<union> named h B"
  by (auto simp: named_def)

lemma collected_update: "collected h {a} m (record_schema h a ps m)"
proof (cases "id_str (h a) = ''__proto__''")
  case True
  then have "named h {a} = {}"
    by (auto simp: named_def)
  with True show ?thesis
    by (simp add: collected_def record_schema_def)
next
  case False
  then have n: "named h {a} = {a}"
    by (auto simp: named_def)
  from False show ?thesis
    using set_update_subset [of "id_str (h a)" a m]
    by (auto simp: collected_def record_schema_def n dom_update distinct_update)
qed

lemma collected_refl: "collected h {} m m"
  by (simp add: collected_def)

lemma collected_trans:
  assumes "collected h A m m1" and "collected h B m1 m2"
  shows "collected h (A \<union> B) m m2"
proof -
  have "fst ` set m2 = fst ` set m \<union> (\<lambda>a. id_str (h a)) ` named h (A \<union> B)"
    using assms unfolding collected_def by (simp add: image_Un Un_assoc)
  moreover have "distinct (map fst m) \<longrightarrow> distinct (map fst m2)"
    using assms unfolding collected_def by simp
  moreover have "set m2 \<subseteq> set m \<union> (\<lambda>a. (id_str (h a), a)) ` named h (A \<union> B)"
    using assms unfolding collected_def by (simp add: image_Un) blast
  ultimately show ?thesis
    unfolding collected_def by simp
qed

lemma recurse_deps_collected:
  assumes IH: "\<And>c ps m m'. recurse n h i (record_schema h) c ps m = Some m'
      \<Longrightarrow> collected h (reach h c) m m'"
  shows "recurse_deps n h i (record_schema h) cs ps m = Some m'
      \<Longrightarrow> collected h (reach_list h cs) m m'"
proof (induction cs arbitrary: m)
  case Nil
  then show ?case by (simp add: collected_refl)
next
  case (Cons c cs)
  then obtain m1 where 1: "recurse n h i (record_schema h) c ps m = Some m1"
    and 2: "recurse_deps n h i (record_schema h) cs ps m1 = Some m'"
    by (auto split: option.splits)
  from collected_trans [OF IH [OF 1] Cons.IH [OF 2]] show ?case by simp
qed

lemma recurse_collected:
  "recurse n h i (record_schema h) a ps m = Some m' \<Longrightarrow> collected h (reach h a) m m'"
proof (induction n arbitrary: a ps m m')
  case 0
  then show ?case by simp
next
  case (Suc n)
  from Suc.prems have "recurse_deps n h i (record_schema h) (dependencies (h a))
      (ps @ [i]) (record_schema h a ps m) = Some m'"
    by simp
  then have "collected h (reach_list h (dependencies (h a))) (record_schema h a ps m) m'"
    using Suc.IH by (intro recurse_deps_collected) auto
  from collected_trans [OF collected_update [of h a m ps] this]
  show ?case
    by (subst reach_eq) simp
qed

lemma collectSchemas_collected:
  "collectSchemas n h r = Some m \<Longrightarrow> collected h (reach h r) [] m"
  unfolding collectSchemas_def walkSchemas_def
  by (rule recurse_collected)



text \<open>With a call stack of \<^verbatim>\<open>n\<close> calls the traversal fails exactly when a path of \<^verbatim>\<open>n\<close>
  edges starts at the node, whatever the callback and the state.\<close>

lemma recurse_deps_None_iff:
  assumes IH: "\<And>c ps s. recurse n h i cb c ps s = None \<longleftrightarrow> path_from h n c"
  shows "recurse_deps n h i cb cs ps s = None \<longleftrightarrow> (\<exists>c\<in>set cs. path_from h n c)"
proof (induction cs arbitrary: s)
  case Nil
  then show ?case by simp
next
  case (Cons c cs)
  show ?case
  proof (cases "recurse n h i cb c ps s")
    case None
    with IH [of c ps s] show ?thesis by simp
  next
    case (Some s1)
    with IH [of c ps s] have "\<not> path_from h n c" by simp
    with Some Cons.IH [of s1] show ?thesis by simp
  qed
qed

lemma recurse_None_iff: "recurse n h i cb a ps s = None \<longleftrightarrow> path_from h n a"
proof (induction n arbitrary: a ps s)
  case 0
  then show ?case by simp
next
  case (Suc n)
  show ?case
    using recurse_deps_None_iff [of n h i cb, OF Suc.IH] by simp
qed

text \<open>The log of a traversal that returns holds a node once for every path to it.\<close>

lemma sum_list_paths:
  "sum_list (map (\<lambda>c. \<Sum>k<n. paths h k c a) cs) = (\<Sum>k<n. sum_list (map (\<lambda>c. paths h k c a) cs))"
  by (induction cs) (simp_all add: sum.distrib)

lemma paths_below_Suc:
  "(\<Sum>k<Suc n. paths h k x a) =
     (if x = a then 1 else 0) + sum_list (map (\<lambda>c. \<Sum>k<n. paths h k c a) (dependencies (h x)))"
  by (simp add: sum.lessThan_Suc_shift sum_list_paths del: sum.lessThan_Suc)

lemma recurse_deps_count:
  assumes IH: "\<And>c ps (log :: addr list) log'. recurse n h i log_visit c ps log = Some log'
      \<Longrightarrow> count_list log' a = count_list log a + (\<Sum>k<n. paths h k c a)"
  shows "recurse_deps n h i log_visit cs ps log = Some log'
      \<Longrightarrow> count_list log' a =
          count_list log a + sum_list (map (\<lambda>c. \<Sum>k<n. paths h k c a) cs)"
proof (induction cs arbitrary: log)
  case Nil
  then show ?case by simp
next
  case (Cons c cs)
  then obtain l1 where 1: "recurse n h i log_visit c ps log = Some l1"
    and 2: "recurse_deps n h i log_visit cs ps l1 = Some log'"
    by (auto split: option.splits)
  from IH [OF 1] Cons.IH [OF 2] show ?case by simp
qed

lemma recurse_count:
  "recurse n h i log_visit x ps log = Some log'
     \<Longrightarrow> count_list log' a = count_list log a + (\<Sum>k<n. paths h k x a)"
proof (induction n arbitrary: x ps log log')
  case 0
  then show ?case by simp
next
  case (Suc n)
  from Suc.prems have "recurse_deps n h i log_visit (dependencies (h x))
      (ps @ [i]) (log @ [x]) = Some log'"
    by (simp add: log_visit_def [of x ps log])
  then have "count_list log' a =
      count_list (log @ [x]) a + sum_list (map (\<lambda>c. \<Sum>k<n. paths h k c a) (dependencies (h x)))"
    using Suc.IH by (intro recurse_deps_count) auto
  then show ?case
    unfolding paths_below_Suc by (simp add: count_list_append)
qed
section \<open>The collector on graphs\<close>

lemma reach_diamond_graph: "reach diamond_graph 0 = {0, 1, 2, 3, 4}"
  by (simp add: reach_eq diamond_graph_def) auto

lemma diamond_graph_rank:
  "\<forall>a\<in>reach diamond_graph 0. \<forall>c\<in>set (dependencies (diamond_graph a)). 4 - c < 4 - a"
  by (simp add: reach_diamond_graph diamond_graph_def)

lemma cyclic_graph_cycle: "\<exists>c\<in>reach cyclic_graph 0. (c, c) \<in> (edges cyclic_graph)\<^sup>+"
proof -
  have "(0, 1) \<in> edges cyclic_graph" "(1, 0) \<in> edges cyclic_graph"
    by (simp_all add: edges_def cyclic_graph_def)
  then have "(0, 0) \<in> (edges cyclic_graph)\<^sup>+"
    by (meson trancl.simps)
  then show ?thesis
    using reach_self by blast
qed

lemma collectSchemas_diamond_graph:
  "collectSchemas 4 diamond_graph 0 =
     Some [(''/A'', 0), (''/B'', 1), (''/D'', 3), (''/E'', 4), (''/C'', 2)]"
  by (simp add: collectSchemas_def walkSchemas_def record_schema_def diamond_graph_def
      eval_nat_numeral)

lemma visits_diamond_graph: "visits 4 diamond_graph 0 = Some [0, 1, 3, 4, 2, 3, 4]"
  by (simp add: visits_def walkSchemas_def log_visit_def diamond_graph_def eval_nat_numeral)

lemma visits_diamond_graph_short: "visits 3 diamond_graph 0 = None"
  by (simp add: visits_def walkSchemas_def log_visit_def diamond_graph_def eval_nat_numeral)

lemma reach_proto_graph: "reach proto_graph 0 = {0, 1}"
  by (simp add: reach_eq proto_graph_def)






text \<open>
  C2, as amended. \<^verbatim>\<open>recurse\<close> has no test for a node it has seen. With a call stack
  of \<^verbatim>\<open>n\<close> calls it fails (the engine's \<^verbatim>\<open>RangeError\<close>) exactly when a path of \<^verbatim>\<open>n\<close> edges
  starts at the root. When it returns it has called the callback on exactly the
  reachable nodes, on each as many times as there are paths from the root to it. So
  it returns when the dependencies go down a rank (no cycle) and the stack exceeds
  the rank of the root, and it returns for no stack when a cycle can be reached from
  the root.
\<close>

theorem walkSchemas_returns_without_cycle:
  "(visits n h r = None \<longleftrightarrow> path_from h n r) \<and>
   (collectSchemas n h r = None \<longleftrightarrow> path_from h n r) \<and>
   (visits n h r = Some log \<longrightarrow>
      set log = reach h r \<and> (\<forall>a. count_list log a = (\<Sum>k<n. paths h k r a))) \<and>
   ((\<forall>a\<in>reach h r. \<forall>c\<in>set (dependencies (h a)). rank c < (rank a :: nat)) \<longrightarrow>
      (\<forall>n. rank r < n \<longrightarrow> (\<exists>log. visits n h r = Some log \<and> set log = reach h r))) \<and>
   ((\<exists>c\<in>reach h r. (c, c) \<in> (edges h)\<^sup>+) \<longrightarrow>
      (\<forall>n. visits n h r = None \<and> collectSchemas n h r = None))"
proof (intro conjI impI allI)
  show "visits n h r = None \<longleftrightarrow> path_from h n r"
    by (simp add: visits_def walkSchemas_def recurse_None_iff)
  show "collectSchemas n h r = None \<longleftrightarrow> path_from h n r"
    by (simp add: collectSchemas_def walkSchemas_def recurse_None_iff)
next
  assume "visits n h r = Some log"
  then have l: "recurse n h r log_visit r [] [] = Some log"
    by (simp add: visits_def walkSchemas_def)
  from recurse_log [OF l] show "set log = reach h r"
    by simp
  fix a
  from recurse_count [OF l, of a] show "count_list log a = (\<Sum>k<n. paths h k r a)"
    by simp
next
  fix n
  assume rank: "\<forall>a\<in>reach h r. \<forall>c\<in>set (dependencies (h a)). rank c < rank a"
    and n: "rank r < n"
  from recurse_returns [OF rank reach_self n, of r log_visit "[]" "[]"]
  obtain log where log: "recurse n h r log_visit r [] [] = Some log" ..
  from recurse_log [OF this] have "set log = reach h r" by simp
  with log show "\<exists>log. visits n h r = Some log \<and> set log = reach h r"
    by (simp add: visits_def walkSchemas_def)
next
  fix n
  assume "\<exists>c\<in>reach h r. (c, c) \<in> (edges h)\<^sup>+"
  then obtain c where "c \<in> reach h r" "(c, c) \<in> (edges h)\<^sup>+" ..
  then show "visits n h r = None" "collectSchemas n h r = None"
    by (simp_all add: visits_def collectSchemas_def walkSchemas_def recurse_cycle)
qed

theorem walkSchemas_returns_without_cycle_witness:
  "visits 4 diamond_graph 0 = Some [0, 1, 3, 4, 2, 3, 4] \<and>
   set [0, 1, 3, 4, 2, 3, 4] = reach diamond_graph 0 \<and>
   count_list [0, 1, 3, 4, 2, 3, 4] (3::nat) = (\<Sum>k<4. paths diamond_graph k 0 3) \<and>
   count_list [0, 1, 3, 4, 2, 3, 4] (3::nat) = 2 \<and>
   visits 3 diamond_graph 0 = None \<and>
   path_from diamond_graph 3 0 \<and>
   (\<exists>log. visits 5 diamond_graph 0 = Some log \<and> set log = reach diamond_graph 0) \<and>
   (\<forall>n. visits n cyclic_graph 0 = None \<and> collectSchemas n cyclic_graph 0 = None)"
proof -
  note d = walkSchemas_returns_without_cycle
    [of 4 diamond_graph 0 "[0, 1, 3, 4, 2, 3, 4]" "\<lambda>a. 4 - a"]
  note d3 = mp [OF conjunct1 [OF conjunct2 [OF conjunct2 [OF d]]] visits_diamond_graph]
  note d4 = mp [OF conjunct1 [OF conjunct2 [OF conjunct2 [OF conjunct2 [OF d]]]]
    diamond_graph_rank]
  note s = walkSchemas_returns_without_cycle [of 3 diamond_graph 0]
  note c = walkSchemas_returns_without_cycle [of _ cyclic_graph 0]
  note c5 = mp [OF conjunct2 [OF conjunct2 [OF conjunct2 [OF conjunct2 [OF c]]]]
    cyclic_graph_cycle]
  have 1: "set [0, 1, 3, 4, 2, 3, 4] = reach diamond_graph 0"
    by (rule conjunct1 [OF d3])
  have 2: "count_list [0, 1, 3, 4, 2, 3, 4] (3::nat) = (\<Sum>k<4. paths diamond_graph k 0 3)"
    by (rule spec [OF conjunct2 [OF d3]])
  have 3: "count_list [0, 1, 3, 4, 2, 3, 4] (3::nat) = 2"
    by simp
  have 4: "path_from diamond_graph 3 0"
    using conjunct1 [OF s] visits_diamond_graph_short by simp
  have 5: "\<exists>log. visits 5 diamond_graph 0 = Some log \<and> set log = reach diamond_graph 0"
    using d4 [rule_format, of 5] by simp
  from visits_diamond_graph 1 2 3 visits_diamond_graph_short 4 5 c5
  show ?thesis
    by (intro conjI)
qed

text \<open>
  C2 as stated fails: on \<^verbatim>\<open>cyclic_graph\<close> the traversal does not return, and on
  \<^verbatim>\<open>diamond_graph\<close> the node \<^verbatim>\<open>/D\<close> (address 3), already recorded, is entered a second
  time and its dependency \<^verbatim>\<open>/E\<close> (address 4) is visited again.
\<close>

theorem walkSchemas_revisits_counterexample:
  "(\<forall>n. collectSchemas n cyclic_graph 0 = None) \<and>
   visits 4 diamond_graph 0 = Some [0, 1, 3, 4, 2, 3, 4]"
proof -
  from cyclic_graph_cycle obtain c
    where "c \<in> reach cyclic_graph 0" "(c, c) \<in> (edges cyclic_graph)\<^sup>+" ..
  then have "collectSchemas n cyclic_graph 0 = None" for n
    by (simp add: collectSchemas_def walkSchemas_def recurse_cycle)
  then show ?thesis
    using visits_diamond_graph by simp
qed

section \<open>typeOrLink\<close>

lemma quoteOrNa_array: "quoteOrNa (Str ''array'') = Inr ''`array`''"
  by (simp add: backtick_def)

lemma typeOrLink_array:
  "\<not> nullish s \<Longrightarrow> array_with_items s \<Longrightarrow>
   typeOrLink ext s = bindE (typeOrLink ext (js_prop s ''items'')) (\<lambda>t. Inr (''`array`['' @ t @ '']''))"
  by (subst typeOrLink.simps) (simp add: array_with_items_def backtick_def bindE_def split: sum.splits)

lemma typeOrLink_ref:
  "\<not> nullish s \<Longrightarrow> \<not> array_with_items s \<Longrightarrow> truthy (js_prop s ''$ref'') \<Longrightarrow>
   typeOrLink ext s =
     Inr (''['' @ to_string (js_prop s ''$ref'') @ '']('' @ anchor ext (js_prop s ''$ref'') @ '')'')"
  by (subst typeOrLink.simps) (auto simp add: array_with_items_def)

lemma typeOrLink_rest:
  "\<not> nullish s \<Longrightarrow> \<not> array_with_items s \<Longrightarrow> \<not> truthy (js_prop s ''$ref'') \<Longrightarrow>
   typeOrLink ext s =
     (if present_nonempty (js_prop s ''anyOf'') then combo_text ext s ''anyOf''
      else if present_nonempty (js_prop s ''allOf'') then combo_text ext s ''allOf''
      else if present_nonempty (js_prop s ''oneOf'') then combo_text ext s ''oneOf''
      else if present_nonempty (js_prop s ''enum'') then enum_text ext s
      else quoteOrNa (js_prop s ''type''))"
  by (subst typeOrLink.simps) (auto simp add: array_with_items_def COMBOS_def combo_text_def enum_text_def)

lemma typeOrLink_array_of_string:
  "typeOrLink ext (Obj [(''type'', Str ''array''), (''items'', Obj [(''type'', Str ''string'')])])
     = Inr ''`array`[`string`]''"
  by (simp add: typeOrLink.simps nullish_def COMBOS_def present_nonempty_def bindE_def backtick_def)

lemma typeOrLink_enum_a_b:
  "inspect ext (Str ''a'') (MapArguments 0 [Str ''a'', Str ''b'']) = [CHR 0x27, CHR ''a'', CHR 0x27] \<Longrightarrow>
   inspect ext (Str ''b'') (MapArguments 1 [Str ''a'', Str ''b'']) = [CHR 0x27, CHR ''b'', CHR 0x27] \<Longrightarrow>
   typeOrLink ext (Obj [(''enum'', Arr [Str ''a'', Str ''b''])])
     = Inr (''_n/a_ in (`'' @ [CHR 0x27, CHR ''a'', CHR 0x27] @ ''`, `'' @ [CHR 0x27, CHR ''b'', CHR 0x27] @ ''`)'')"
  by (simp add: typeOrLink.simps nullish_def COMBOS_def present_nonempty_def bindE_def backtick_def)

text \<open>
  C5. On a schema that is not \<^verbatim>\<open>undefined\<close>/\<^verbatim>\<open>null\<close>, \<^verbatim>\<open>typeOrLink\<close> applies the first rule
  that fits, in this order: an array with items, a \<^verbatim>\<open>$ref\<close>, the combinators
  \<^verbatim>\<open>anyOf\<close>, \<^verbatim>\<open>allOf\<close>, \<^verbatim>\<open>oneOf\<close>, a non-empty \<^verbatim>\<open>enum\<close>, the plain type. An array of strings
  gives \<^verbatim>\<open>`array`[`string`]\<close>; an \<^verbatim>\<open>enum\<close> of \<^verbatim>\<open>"a"\<close> and \<^verbatim>\<open>"b"\<close> without a type gives
  \<^verbatim>\<open>_n/a_ in (`'a'`, `'b'`)\<close> when \<^verbatim>\<open>util.inspect\<close> prints the two strings as \<^verbatim>\<open>'a'\<close> and
  \<^verbatim>\<open>'b'\<close>.
\<close>

theorem typeOrLink_priority:
  "(\<not> nullish s \<longrightarrow>
      (array_with_items s \<longrightarrow>
         typeOrLink ext s =
           bindE (typeOrLink ext (js_prop s ''items'')) (\<lambda>t. Inr (''`array`['' @ t @ '']''))) \<and>
      (\<not> array_with_items s \<and> truthy (js_prop s ''$ref'') \<longrightarrow>
         typeOrLink ext s =
           Inr (''['' @ to_string (js_prop s ''$ref'') @ '']('' @
                anchor ext (js_prop s ''$ref'') @ '')'')) \<and>
      (\<not> array_with_items s \<and> \<not> truthy (js_prop s ''$ref'') \<longrightarrow>
         typeOrLink ext s =
           (if present_nonempty (js_prop s ''anyOf'') then combo_text ext s ''anyOf''
            else if present_nonempty (js_prop s ''allOf'') then combo_text ext s ''allOf''
            else if present_nonempty (js_prop s ''oneOf'') then combo_text ext s ''oneOf''
            else if present_nonempty (js_prop s ''enum'') then enum_text ext s
            else quoteOrNa (js_prop s ''type'')))) \<and>
   typeOrLink ext (Obj [(''type'', Str ''array''), (''items'', Obj [(''type'', Str ''string'')])])
     = Inr ''`array`[`string`]'' \<and>
   (inspect ext (Str ''a'') (MapArguments 0 [Str ''a'', Str ''b'']) = [CHR 0x27, CHR ''a'', CHR 0x27] \<and>
    inspect ext (Str ''b'') (MapArguments 1 [Str ''a'', Str ''b'']) = [CHR 0x27, CHR ''b'', CHR 0x27] \<longrightarrow>
      typeOrLink ext (Obj [(''enum'', Arr [Str ''a'', Str ''b''])])
        = Inr (''_n/a_ in (`'' @ [CHR 0x27, CHR ''a'', CHR 0x27] @ ''`, `'' @
               [CHR 0x27, CHR ''b'', CHR 0x27] @ ''`)''))"
  using typeOrLink_array [of s ext] typeOrLink_ref [of s ext] typeOrLink_rest [of s ext]
    typeOrLink_array_of_string [of ext] typeOrLink_enum_a_b [of ext]
  by blast

theorem typeOrLink_priority_witness:
  "typeOrLink sample_externals all_rules_schema = Inr ''`array`[`string`]'' \<and>
   typeOrLink sample_externals (omit all_rules_schema ''items'') = Inr ''[/Bar](#/Bar)'' \<and>
   typeOrLink sample_externals (omit (omit all_rules_schema ''items'') ''$ref'')
     = Inr ''anyOf(`string`, [/Foo](#/Foo))'' \<and>
   typeOrLink sample_externals (omit (omit (omit all_rules_schema ''items'') ''$ref'') ''anyOf'')
     = Inr ''oneOf(`number`)'' \<and>
   typeOrLink sample_externals (Obj [(''enum'', Arr [Str ''a'', Str ''b''])])
     = Inr (''_n/a_ in (`'' @ [CHR 0x27, CHR ''a'', CHR 0x27] @ ''`, `'' @
            [CHR 0x27, CHR ''b'', CHR 0x27] @ ''`)'')"
proof -
  have s: "typeOrLink sample_externals (Obj [(''type'', Str ''string'')]) = Inr ''`string`''"
    "typeOrLink sample_externals (Obj [(''type'', Str ''number'')]) = Inr ''`number`''"
    "typeOrLink sample_externals (Obj [(''$ref'', Str ''/Foo'')]) = Inr ''[/Foo](#/Foo)''"
    by (simp_all add: typeOrLink.simps nullish_def COMBOS_def present_nonempty_def backtick_def
        sample_externals_def)
  show ?thesis
    using typeOrLink_priority [of all_rules_schema sample_externals]
      typeOrLink_priority [of "omit all_rules_schema ''items''" sample_externals]
      typeOrLink_priority [of "omit (omit all_rules_schema ''items'') ''$ref''" sample_externals]
      typeOrLink_priority
        [of "omit (omit (omit all_rules_schema ''items'') ''$ref'') ''anyOf''" sample_externals]
    by (simp add: s all_rules_schema_def array_with_items_def nullish_def present_nonempty_def
        combo_text_def)
      (simp add: sample_externals_def)
qed

section \<open>Empty blocks\<close>

lemma makeExampleSection_empty:
  "\<not> nullish (schema S) \<Longrightarrow>
   \<not> truthy (js_prop (schema S) ''examples'') \<or> js_prop (schema S) ''examples'' = Arr [] \<Longrightarrow>
   makeExampleSection ext S = Inr []"
  by (auto simp: makeExampleSection_def or_else_def Let_def)

lemma makeAntiExampleSection_empty:
  "\<not> nullish (schema S) \<Longrightarrow>
   \<not> truthy (js_prop (schema S) ''antiExamples'') \<or> js_prop (schema S) ''antiExamples'' = Arr [] \<Longrightarrow>
   makeAntiExampleSection ext S = Inr []"
  by (auto simp: makeAntiExampleSection_def or_else_def Let_def)

lemma makePropertiesSection_empty:
  "\<not> nullish (schema S) \<Longrightarrow>
   js_prop (schema S) ''properties'' = Obj [] \<or>
   (\<not> truthy (js_prop (schema S) ''properties'') \<and>
    (\<not> truthy (js_prop (schema S) ''patternProperties'') \<or>
     js_prop (schema S) ''patternProperties'' = Obj [])) \<Longrightarrow>
   makePropertiesSection ext S = Inr []"
  by (auto simp: makePropertiesSection_def or_else_def Let_def)

text \<open>
  C6. For a node with a schema, each of the three blocks is the empty string, without
  a heading, on its own condition: \<^verbatim>\<open>examples\<close> absent (or falsy) or the empty list;
  \<^verbatim>\<open>antiExamples\<close> absent or the empty list; \<^verbatim>\<open>properties\<close> the empty mapping, or absent
  with \<^verbatim>\<open>patternProperties\<close> absent or empty.
\<close>

theorem empty_blocks_are_omitted:
  "\<not> nullish (schema S) \<longrightarrow>
     (\<not> truthy (js_prop (schema S) ''examples'') \<or> js_prop (schema S) ''examples'' = Arr [] \<longrightarrow>
        makeExampleSection ext S = Inr []) \<and>
     (\<not> truthy (js_prop (schema S) ''antiExamples'') \<or>
      js_prop (schema S) ''antiExamples'' = Arr [] \<longrightarrow>
        makeAntiExampleSection ext S = Inr []) \<and>
     (js_prop (schema S) ''properties'' = Obj [] \<or>
      (\<not> truthy (js_prop (schema S) ''properties'') \<and>
       (\<not> truthy (js_prop (schema S) ''patternProperties'') \<or>
        js_prop (schema S) ''patternProperties'' = Obj [])) \<longrightarrow>
        makePropertiesSection ext S = Inr [])"
  using makeExampleSection_empty [of S ext] makeAntiExampleSection_empty [of S ext]
    makePropertiesSection_empty [of S ext]
  by blast

theorem empty_blocks_are_omitted_witness:
  "makeExampleSection sample_externals bare_schema = Inr [] \<and>
   makeAntiExampleSection sample_externals bare_schema = Inr [] \<and>
   makePropertiesSection sample_externals bare_schema = Inr []"
  using empty_blocks_are_omitted [of bare_schema sample_externals]
  by (simp add: bare_schema_def nullish_def)

section \<open>formatExample\<close>

lemma omit_props:
  "isPlainObject v \<Longrightarrow>
     isPlainObject (omit v key) \<and> js_prop (omit v key) key = Undefined \<and>
     key \<notin> fst ` set (own_entries (omit v key)) \<and>
     (\<forall>k. k \<noteq> key \<longrightarrow> js_prop (omit v key) k = js_prop v k)"
proof (cases v)
  case (Obj fs)
  have 1: "map_of (filter (\<lambda>(k, v). k \<noteq> key) fs) k = (if k = key then None else map_of fs k)" for k
    by (induction fs) auto
  have "key \<notin> fst ` set (filter (\<lambda>(k, v). k \<noteq> key) fs)"
    by auto
  then have 2: "key \<notin> fst ` set (AList.clearjunk (filter (\<lambda>(k, v). k \<noteq> key) fs))"
    by (simp add: dom_clearjunk)
  from 1 2 Obj show ?thesis by simp
qed simp_all

text \<open>
  C8, as amended. \<^verbatim>\<open>formatExample\<close> inspects a value \<^verbatim>\<open>ex\<close>: for a plain object, the
  example without its own property \<^verbatim>\<open>SKIP_KEY\<close> (every other property unchanged, what
  is nested inside them included); for any other value, the example itself.
\<close>

theorem formatExample_omits_own_skip_key:
  "\<exists>ex. formatExample ext example =
          bindE (quoteOrNa (Str (inspect ext ex ExampleOptions))) (\<lambda>q. Inr (''* '' @ q)) \<and>
        (if isPlainObject example
         then isPlainObject ex \<and> js_prop ex (SKIP_KEY ext) = Undefined \<and>
              SKIP_KEY ext \<notin> fst ` set (own_entries ex) \<and>
              (\<forall>k. k \<noteq> SKIP_KEY ext \<longrightarrow> js_prop ex k = js_prop example k)
         else ex = example)"
proof (cases "isPlainObject example")
  case True
  with omit_props [OF True, of "SKIP_KEY ext"] show ?thesis
    by (intro exI [of _ "omit example (SKIP_KEY ext)"]) (simp add: formatExample_def)
next
  case False
  then show ?thesis
    by (intro exI [of _ example]) (simp add: formatExample_def)
qed

lemma formatExample_sample:
  "formatExample sample_externals (Obj [(''key'', Str ''abc''), (''_skipTest'', Bool True)])
     = Inr (''* `{ key: '' @ [CHR 0x27] @ ''abc'' @ [CHR 0x27] @ '' }`'')"
  by (simp add: formatExample_def sample_externals_def bindE_def backtick_def)

theorem formatExample_omits_own_skip_key_witness:
  "(\<exists>ex. formatExample sample_externals (Obj [(''key'', Str ''abc''), (''_skipTest'', Bool True)]) =
          bindE (quoteOrNa (Str (inspect sample_externals ex ExampleOptions)))
            (\<lambda>q. Inr (''* '' @ q)) \<and>
         isPlainObject ex \<and> js_prop ex ''_skipTest'' = Undefined \<and>
         js_prop ex ''key'' = Str ''abc'') \<and>
   formatExample sample_externals (Obj [(''key'', Str ''abc''), (''_skipTest'', Bool True)])
     = Inr (''* `{ key: '' @ [CHR 0x27] @ ''abc'' @ [CHR 0x27] @ '' }`'')"
proof -
  have k: "SKIP_KEY sample_externals = ''_skipTest''"
    by (simp add: sample_externals_def)
  from formatExample_omits_own_skip_key
    [of sample_externals "Obj [(''key'', Str ''abc''), (''_skipTest'', Bool True)]"]
  obtain ex where
    "formatExample sample_externals (Obj [(''key'', Str ''abc''), (''_skipTest'', Bool True)]) =
       bindE (quoteOrNa (Str (inspect sample_externals ex ExampleOptions))) (\<lambda>q. Inr (''* '' @ q))"
    "isPlainObject ex" "js_prop ex ''_skipTest'' = Undefined"
    "js_prop ex ''key'' = js_prop (Obj [(''key'', Str ''abc''), (''_skipTest'', Bool True)]) ''key''"
    unfolding k by auto
  then show ?thesis
    using formatExample_sample by auto
qed

text \<open>
  C8 as stated fails: a sentinel key inside a nested object reaches \<^verbatim>\<open>util.inspect\<close>,
  whatever the key is, and with the instance above the key of a nested object, or of
  an object in an array, is printed in the example line.
\<close>

theorem formatExample_nested_skip_key_counterexample:
  "(\<forall>ext. formatExample ext (Obj [(SKIP_KEY ext @ ''x'', Obj [(SKIP_KEY ext, Bool True)])]) =
      bindE (quoteOrNa (Str (inspect ext
               (Obj [(SKIP_KEY ext @ ''x'', Obj [(SKIP_KEY ext, Bool True)])]) ExampleOptions)))
        (\<lambda>q. Inr (''* '' @ q))) \<and>
   formatExample sample_externals (Obj [(''a'', Obj [(''_skipTest'', Bool True)])])
     = Inr ''* `{ a: { _skipTest: true } }`'' \<and>
   formatExample sample_externals (Arr [Obj [(''_skipTest'', Bool True)]])
     = Inr ''* `[ { _skipTest: true } ]`'' \<and>
   sublist (SKIP_KEY sample_externals) ''* `{ a: { _skipTest: true } }`''"
proof -
  have "formatExample ext (Obj [(SKIP_KEY ext @ ''x'', Obj [(SKIP_KEY ext, Bool True)])]) =
      bindE (quoteOrNa (Str (inspect ext
               (Obj [(SKIP_KEY ext @ ''x'', Obj [(SKIP_KEY ext, Bool True)])]) ExampleOptions)))
        (\<lambda>q. Inr (''* '' @ q))" for ext
    by (simp add: formatExample_def)
  moreover have
    "formatExample sample_externals (Obj [(''a'', Obj [(''_skipTest'', Bool True)])])
       = Inr ''* `{ a: { _skipTest: true } }`''"
    "formatExample sample_externals (Arr [Obj [(''_skipTest'', Bool True)]])
       = Inr ''* `[ { _skipTest: true } ]`''"
    "sublist (SKIP_KEY sample_externals) ''* `{ a: { _skipTest: true } }`''"
    by (simp_all add: formatExample_def sample_externals_def backtick_def sublist_code)
  ultimately show ?thesis
    by blast
qed

section \<open>A single schema, end to end\<close>

lemma trim_strip:
  assumes "\<not> is_space x" "\<not> is_space y" "\<forall>c\<in>set ws. is_space c"
  shows "trim (x # mid @ y # ws) = x # mid @ [y]"
proof -
  have "dropWhile is_space (rev ws @ y # rev mid @ [x]) = y # rev mid @ [x]"
    using assms by (simp add: dropWhile_append3 dropWhile_append)
  then show ?thesis
    using assms by (simp add: trim_def)
qed

lemma typeOrLink_string: "typeOrLink ext (Obj [(''type'', Str ''string'')]) = Inr ''`string`''"
  by (simp add: typeOrLink.simps nullish_def COMBOS_def present_nonempty_def backtick_def)

lemma makeMarkdownSection_foo:
  assumes "id_str S = ''/Foo''" "schema S = Obj [(''type'', Str ''string'')]"
  shows "makeMarkdownSection ext S = Inr (foo_section ext)"
proof -
  have ex: "makeExampleSection ext S = Inr []" "makeAntiExampleSection ext S = Inr []"
    "makePropertiesSection ext S = Inr []"
    using assms by (simp_all add: makeExampleSection_def makeAntiExampleSection_def
        makePropertiesSection_def nullish_def or_else_def)
  have "trim (CHR ''#'' # (''# /Foo'' @ nl @ nl @
     ''_No description given._'' @ nl @ nl @
     ''#### Details'' @ nl @ nl @
     ''* **Type** - `string`'' @ nl @
     ''* **Pattern** - _n/a_'' @ nl @
     ''* **Source Code** - [lib/schemas/Foo.js]('' @ makeCodeLink ext ''/Foo'') @ CHR '')'' # (nl @ nl @ nl @ nl @ nl))
   = foo_section ext"
    by (subst trim_strip) (simp_all add: is_space_def nl_def foo_section_def)
  then show ?thesis
    using assms ex
    by (simp add: makeMarkdownSection_def nullish_def or_else_def typeOrLink_string
        NO_DESCRIPTION_def)
qed

lemma document_text:
  "document v secs =
     ''<!-- {% raw %} -->'' @ nl @
        ''# `zapier-platform-schema` Generated Documentation'' @ nl @ nl @
        ''This is automatically generated by the `npm run docs` command in `zapier-platform-schema` version '' @
          v @ ''.'' @ nl @ nl @
        ''-----'' @ nl @ nl @
        ''## Index'' @ nl @
        ''<!-- toc -->'' @ nl @ nl @
        ''-----'' @ nl @ nl @
        secs @ nl @
        ''<!-- {% endraw %} -->''"
proof -
  have "trim (CHR ''<'' # (''!-- {% raw %} -->'' @ nl @
        ''# `zapier-platform-schema` Generated Documentation'' @ nl @ nl @
        ''This is automatically generated by the `npm run docs` command in `zapier-platform-schema` version '' @
          v @ ''.'' @ nl @ nl @
        ''-----'' @ nl @ nl @
        ''## Index'' @ nl @
        ''<!-- toc -->'' @ nl @ nl @
        ''-----'' @ nl @ nl @
        secs @ nl @
        ''<!-- {% endraw %} --'') @ CHR ''>'' # nl)
     = CHR ''<'' # (''!-- {% raw %} -->'' @ nl @
        ''# `zapier-platform-schema` Generated Documentation'' @ nl @ nl @
        ''This is automatically generated by the `npm run docs` command in `zapier-platform-schema` version '' @
          v @ ''.'' @ nl @ nl @
        ''-----'' @ nl @ nl @
        ''## Index'' @ nl @
        ''<!-- toc -->'' @ nl @ nl @
        ''-----'' @ nl @ nl @
        secs @ nl @
        ''<!-- {% endraw %} --'') @ [CHR ''>'']"
    by (rule trim_strip) (simp_all add: is_space_def nl_def)
  then show ?thesis
    by (simp add: document_def)
qed

lemma collectSchemas_leaf:
  "dependencies (h r) = [] \<Longrightarrow> id_str (h r) \<noteq> ''__proto__'' \<Longrightarrow>
   collectSchemas (Suc n) h r = Some [(id_str (h r), r)]"
  by (simp add: collectSchemas_def walkSchemas_def record_schema_def)

text \<open>
  C9. For a root \<^verbatim>\<open>{id: "/Foo", schema: {type: "string"}, dependencies: []}\<close> the build
  returns, and the document handed to \<^verbatim>\<open>toc.insert\<close> is the template around one
  section: the heading \<^verbatim>\<open>## /Foo\<close>, the text \<^verbatim>\<open>_No description given._\<close>, the Details with
  the type \<^verbatim>\<open>`string`\<close>, the pattern \<^verbatim>\<open>_n/a_\<close> and the source link, and nothing after them:
  the Examples, Anti-Examples and Properties blocks are empty.
\<close>

theorem buildDocs_single_string_schema:
  assumes "h r = \<lparr>id_str = ''/Foo'', schema = Obj [(''type'', Str ''string'')], dependencies = []\<rparr>"
  shows "buildDocs ext (Suc n) h r =
           Some (bindE (quoteOrNa (version ext)) (\<lambda>versionText.
                 Inr (toc_insert ext (document versionText (foo_section ext)) 2 ''*''))) \<and>
         makeMarkdownSection ext (h r) = Inr (foo_section ext) \<and>
         makeExampleSection ext (h r) = Inr [] \<and>
         makeAntiExampleSection ext (h r) = Inr [] \<and>
         makePropertiesSection ext (h r) = Inr []"
proof -
  have sec: "makeMarkdownSection ext (h r) = Inr (foo_section ext)"
    by (rule makeMarkdownSection_foo) (simp_all add: assms)
  have "collectSchemas (Suc n) h r = Some [(''/Foo'', r)]"
    using collectSchemas_leaf [of h r n] by (simp add: assms)
  then have "buildDocs ext (Suc n) h r =
           Some (bindE (quoteOrNa (version ext)) (\<lambda>versionText.
                 Inr (toc_insert ext (document versionText (foo_section ext)) 2 ''*'')))"
    by (simp add: buildDocs_def render_def sorted_schemas_def sec)
  moreover have "makeExampleSection ext (h r) = Inr []" "makeAntiExampleSection ext (h r) = Inr []"
    "makePropertiesSection ext (h r) = Inr []"
    by (simp_all add: assms makeExampleSection_def makeAntiExampleSection_def
        makePropertiesSection_def nullish_def or_else_def)
  ultimately show ?thesis
    using sec by simp
qed

theorem buildDocs_single_string_schema_witness:
  "buildDocs sample_externals (Suc 0) foo_graph 0 =
     Some (Inr
       (''<!-- {% raw %} -->'' @ nl @
        ''# `zapier-platform-schema` Generated Documentation'' @ nl @ nl @
        ''This is automatically generated by the `npm run docs` command in `zapier-platform-schema` version `1.0.0`.'' @ nl @ nl @
        ''-----'' @ nl @ nl @
        ''## Index'' @ nl @
        ''<!-- toc -->'' @ nl @ nl @
        ''-----'' @ nl @ nl @
        ''## /Foo'' @ nl @ nl @
        ''_No description given._'' @ nl @ nl @
        ''#### Details'' @ nl @ nl @
        ''* **Type** - `string`'' @ nl @
        ''* **Pattern** - _n/a_'' @ nl @
        ''* **Source Code** - [lib/schemas/Foo.js](https://example.com/lib/schemas/Foo.js)'' @ nl @
        ''<!-- {% endraw %} -->''))"
proof -
  have v: "quoteOrNa (version sample_externals) = Inr ''`1.0.0`''"
    by (simp add: sample_externals_def backtick_def)
  have t: "toc_insert sample_externals d 2 ''*'' = d" for d
    by (simp add: sample_externals_def)
  have l: "makeCodeLink sample_externals ''/Foo'' = ''https://example.com/lib/schemas/Foo.js''"
    by (simp add: sample_externals_def)
  from buildDocs_single_string_schema [of foo_graph 0 sample_externals 0]
  have "buildDocs sample_externals (Suc 0) foo_graph 0 =
          Some (Inr (document ''`1.0.0`'' (foo_section sample_externals)))"
    by (simp add: foo_graph_def v t)
  then show ?thesis
    by (simp add: document_text foo_section_def l)
qed


section \<open>Property rows and annotations\<close>

lemma annotation_read:
  "truthy (annotation_of property) \<Longrightarrow>
   js_prop (js_prop property ''docAnnotation'') ''required'' = annotation_of property"
  by (auto simp: annotation_of_def split: if_splits)

lemma required_text_cases:
  "required_text property req =
     (if \<not> truthy (annotation_of property) then Inr (default_text req)
      else if js_prop (annotation_of property) ''type'' = Str ''replace''
        then Inr (to_string (js_prop (annotation_of property) ''value''))
      else if js_prop (annotation_of property) ''type'' = Str ''append''
        then Inr (default_text req @ to_string (js_prop (annotation_of property) ''value''))
      else Inl (unrecognized (annotation_of property)))"
proof -
  have r: "required_text property req =
     (if truthy (annotation_of property) then
        if js_prop (js_prop (js_prop property ''docAnnotation'') ''required'') ''type'' = Str ''replace''
        then Inr (to_string (js_prop (js_prop (js_prop property ''docAnnotation'') ''required'') ''value''))
        else if js_prop (js_prop (js_prop property ''docAnnotation'') ''required'') ''type'' = Str ''append''
        then Inr (default_text req @
                  to_string (js_prop (js_prop (js_prop property ''docAnnotation'') ''required'') ''value''))
        else Inl (unrecognized (js_prop (js_prop property ''docAnnotation'') ''required''))
      else Inr (default_text req))"
    unfolding required_text_def annotation_of_def default_text_def unrecognized_def Let_def ..
  show ?thesis
  proof (cases "truthy (annotation_of property)")
    case True
    from annotation_read [OF True] True show ?thesis
      unfolding r by simp
  next
    case False
    then show ?thesis
      unfolding r by simp
  qed
qed

lemma processProperty_bad:
  "bad_annotation property \<Longrightarrow>
   processProperty ext key property req = Inl (unrecognized (annotation_of property))"
  by (simp add: processProperty_def required_text_cases bad_annotation_def)






















section \<open>Falsy annotations\<close>

lemma quoteOrNa_error: "quoteOrNa v = Inl e \<Longrightarrow> e = TypeError"
  by (cases v) (auto split: if_splits)

lemma quoteOrNa_Str_no_error [simp]: "quoteOrNa (Str s) \<noteq> Inl e"
  by simp

lemma js_map_error: "js_map v = Inl e \<Longrightarrow> e = TypeError"
  by (cases v) auto

lemma bindE_Inl: "bindE m f = Inl e \<Longrightarrow> m = Inl e \<or> (\<exists>x. m = Inr x \<and> f x = Inl e)"
  by (cases m) auto

lemma sequenceE_error: "sequenceE (map f xs) = Inl e \<Longrightarrow> \<exists>x\<in>set xs. f x = Inl e"
proof (induction xs)
  case Nil
  then show ?case by simp
next
  case (Cons y ys)
  then show ?case
    by (cases "f y"; cases "sequenceE (map f ys)") auto
qed


lemma typeOrLink_error: "typeOrLink ext s = Inl e \<Longrightarrow> e = TypeError"
proof (induction ext s arbitrary: e rule: typeOrLink.induct)
  case (1 ext s)
  show ?case
  proof (cases "nullish s")
    case True
    with "1.prems" show ?thesis by (simp add: typeOrLink.simps)
  next
    case nn: False
    show ?thesis
    proof (cases "array_with_items s")
      case True
      with nn "1.prems" have "bindE (typeOrLink ext (js_prop s ''items'')) (\<lambda>t. Inr (''`array`['' @ t @ '']'')) = Inl e"
        by (simp add: typeOrLink_array)
      then have "typeOrLink ext (js_prop s ''items'') = Inl e"
        by (auto dest: bindE_Inl)
      with "1.IH"(1) [OF nn] True show ?thesis
        by (simp add: array_with_items_def backtick_def)
    next
      case na: False
      show ?thesis
      proof (cases "truthy (js_prop s ''$ref'')")
        case True
        with nn na "1.prems" show ?thesis by (simp add: typeOrLink_ref)
      next
        case nr: False
        have combo: "e = TypeError"
          if k: "find (\<lambda>key. present_nonempty (js_prop s key)) COMBOS = Some key"
            and c: "combo_text ext s key = Inl e" for key
        proof -
          from c consider "js_map (js_prop s key) = Inl e"
            | members where "js_map (js_prop s key) = Inr members"
              "sequenceE (map (typeOrLink ext) members) = Inl e"
            unfolding combo_text_def by (auto dest!: bindE_Inl)
          then show ?thesis
          proof cases
            case 1
            then show ?thesis by (rule js_map_error)
          next
            case 2
            from sequenceE_error [OF 2(2)] obtain x where "x \<in> set members" "typeOrLink ext x = Inl e"
              by auto
            with "1.IH"(2) [OF nn _ nr k 2(1)] na show ?thesis
              by (simp add: array_with_items_def)
          qed
        qed
        have enum: "e = TypeError" if "enum_text ext s = Inl e"
        proof -
          from that consider "quoteOrNa (js_prop s ''type'') = Inl e"
            | "js_map (js_prop s ''enum'') = Inl e"
            | members where "sequenceE
              (map (\<lambda>(i, m). quoteOrNa (Str (inspect ext m (MapArguments i members))))
                 (enumerate 0 members)) = Inl e"
            unfolding enum_text_def by (auto dest!: bindE_Inl)
          then show ?thesis
          proof cases
            case 1
            then show ?thesis by (rule quoteOrNa_error)
          next
            case 2
            then show ?thesis by (rule js_map_error)
          next
            case 3
            from sequenceE_error [OF 3] show ?thesis
              by (auto simp del: quoteOrNa.simps)
          qed
        qed
        from nn na nr "1.prems" have
          "(if present_nonempty (js_prop s ''anyOf'') then combo_text ext s ''anyOf''
            else if present_nonempty (js_prop s ''allOf'') then combo_text ext s ''allOf''
            else if present_nonempty (js_prop s ''oneOf'') then combo_text ext s ''oneOf''
            else if present_nonempty (js_prop s ''enum'') then enum_text ext s
            else quoteOrNa (js_prop s ''type'')) = Inl e"
          by (simp add: typeOrLink_rest)
        then show ?thesis
          using combo [of "''anyOf''"] combo [of "''allOf''"] combo [of "''oneOf''"] enum
            quoteOrNa_error [of "js_prop s ''type''" e]
          by (auto simp: COMBOS_def split: if_splits)
      qed
    qed
  qed
qed

lemma processProperty_Error:
  assumes "processProperty ext key property req = Inl (Error msg)"
  shows "bad_annotation property \<and> Error msg = unrecognized (annotation_of property)"
proof -
  from assms consider "required_text property req = Inl (Error msg)"
    | "quoteOrNa (Str key) = Inl (Error msg)"
    | "typeOrLink ext property = Inl (Error msg)"
    unfolding processProperty_def by (auto dest!: bindE_Inl)
  then show ?thesis
  proof cases
    case 1
    then show ?thesis
      by (auto simp: required_text_cases bad_annotation_def split: if_splits)
  next
    case 2
    then show ?thesis by (simp del: quoteOrNa.simps)
  next
    case 3
    then show ?thesis by (auto dest: typeOrLink_error)
  qed
qed

text \<open>
  C10. When \<^verbatim>\<open>docAnnotation.required\<close> is absent or falsy, \<^verbatim>\<open>processProperty\<close> keeps
  the default text and the annotation raises nothing; when \<^verbatim>\<open>processProperty\<close> does
  throw its \<^verbatim>\<open>Error\<close>, the annotation is truthy and its type is neither \<^verbatim>\<open>"replace"\<close>
  nor \<^verbatim>\<open>"append"\<close>.
\<close>

theorem falsy_annotation_is_ignored:
  "(\<not> truthy (annotation_of property) \<longrightarrow>
      required_text property req = Inr (if req then ''**yes**'' else ''no'') \<and>
      processProperty ext key property req =
        bindE (quoteOrNa (Str key)) (\<lambda>k.
        bindE (typeOrLink ext property) (\<lambda>t.
        Inr (k @ '' | '' @ (if req then ''**yes**'' else ''no'') @ '' | '' @ t @ '' | '' @
             to_string (or_else (js_prop property ''description'') (Str NO_DESCRIPTION)))))) \<and>
   (processProperty ext key property req = Inl (Error msg) \<longrightarrow>
      truthy (annotation_of property) \<and>
      js_prop (annotation_of property) ''type'' \<noteq> Str ''replace'' \<and>
      js_prop (annotation_of property) ''type'' \<noteq> Str ''append'' \<and>
      msg = ''unrecognized docAnnotation type: '' @
            to_string (js_prop (annotation_of property) ''type''))"
proof (intro conjI impI)
  assume f: "\<not> truthy (annotation_of property)"
  then show r: "required_text property req = Inr (if req then ''**yes**'' else ''no'')"
    by (simp add: required_text_cases default_text_def)
  show "processProperty ext key property req =
        bindE (quoteOrNa (Str key)) (\<lambda>k.
        bindE (typeOrLink ext property) (\<lambda>t.
        Inr (k @ '' | '' @ (if req then ''**yes**'' else ''no'') @ '' | '' @ t @ '' | '' @
             to_string (or_else (js_prop property ''description'') (Str NO_DESCRIPTION)))))"
    unfolding processProperty_def r by simp
next
  assume "processProperty ext key property req = Inl (Error msg)"
  from processProperty_Error [OF this]
  show "truthy (annotation_of property)"
    "js_prop (annotation_of property) ''type'' \<noteq> Str ''replace''"
    "js_prop (annotation_of property) ''type'' \<noteq> Str ''append''"
    "msg = ''unrecognized docAnnotation type: '' @
            to_string (js_prop (annotation_of property) ''type'')"
    by (simp_all add: bad_annotation_def unrecognized_def)
qed

theorem falsy_annotation_is_ignored_witness:
  "required_text (Obj [(''docAnnotation'', Obj [(''required'', Null)])]) True = Inr ''**yes**'' \<and>
   required_text (Obj [(''docAnnotation'', Obj [(''required'', Bool False)])]) False = Inr ''no'' \<and>
   required_text (Obj [(''docAnnotation'', Obj [(''required'', Num 0)])]) True = Inr ''**yes**'' \<and>
   required_text (Obj [(''docAnnotation'', Obj [(''required'', Str [])])]) False = Inr ''no'' \<and>
   processProperty sample_externals ''k''
       (Obj [(''type'', Str ''string''), (''docAnnotation'', Obj [(''required'', Null)])]) True
     = Inr ''`k` | **yes** | `string` | _No description given._'' \<and>
   processProperty sample_externals ''w'' bogus_property False
     = Inl (Error ''unrecognized docAnnotation type: bogus'') \<and>
   truthy (annotation_of bogus_property) \<and>
   js_prop (annotation_of bogus_property) ''type'' = Str ''bogus''"
proof -
  have f: "\<not> truthy (annotation_of (Obj [(''docAnnotation'', Obj [(''required'', Null)])]))"
    "\<not> truthy (annotation_of (Obj [(''docAnnotation'', Obj [(''required'', Bool False)])]))"
    "\<not> truthy (annotation_of (Obj [(''docAnnotation'', Obj [(''required'', Num 0)])]))"
    "\<not> truthy (annotation_of (Obj [(''docAnnotation'', Obj [(''required'', Str [])])]))"
    "\<not> truthy (annotation_of
        (Obj [(''type'', Str ''string''), (''docAnnotation'', Obj [(''required'', Null)])]))"
    by (simp_all add: annotation_of_def nullish_def)
  have t: "typeOrLink sample_externals
      (Obj [(''type'', Str ''string''), (''docAnnotation'', Obj [(''required'', Null)])])
      = Inr ''`string`''"
    by (simp add: typeOrLink.simps nullish_def COMBOS_def present_nonempty_def backtick_def)
  have bad: "bad_annotation bogus_property"
    by (simp add: bad_annotation_def annotation_of_def bogus_property_def nullish_def)
  have ty: "js_prop (annotation_of bogus_property) ''type'' = Str ''bogus''"
    by (simp add: annotation_of_def bogus_property_def nullish_def)
  have w: "processProperty sample_externals ''w'' bogus_property False
     = Inl (Error ''unrecognized docAnnotation type: bogus'')"
    by (simp add: processProperty_bad [OF bad] unrecognized_def ty)
  from falsy_annotation_is_ignored
    [where property = bogus_property and ext = sample_externals and key = "''w''" and req = False
      and msg = "''unrecognized docAnnotation type: bogus''"] w
  have "truthy (annotation_of bogus_property)"
    by blast
  moreover from falsy_annotation_is_ignored
    [where property = "Obj [(''type'', Str ''string''), (''docAnnotation'', Obj [(''required'', Null)])]"
      and ext = sample_externals and key = "''k''" and req = True] f(5)
  have "processProperty sample_externals ''k''
       (Obj [(''type'', Str ''string''), (''docAnnotation'', Obj [(''required'', Null)])]) True
     = Inr ''`k` | **yes** | `string` | _No description given._''"
    by (simp add: t NO_DESCRIPTION_def or_else_def backtick_def)
  moreover from
    falsy_annotation_is_ignored
      [where property = "Obj [(''docAnnotation'', Obj [(''required'', Null)])]" and req = True]
    falsy_annotation_is_ignored
      [where property = "Obj [(''docAnnotation'', Obj [(''required'', Bool False)])]" and req = False]
    falsy_annotation_is_ignored
      [where property = "Obj [(''docAnnotation'', Obj [(''required'', Num 0)])]" and req = True]
    falsy_annotation_is_ignored
      [where property = "Obj [(''docAnnotation'', Obj [(''required'', Str [])])]" and req = False]
    f(1-4)
  have "required_text (Obj [(''docAnnotation'', Obj [(''required'', Null)])]) True = Inr ''**yes**''"
    "required_text (Obj [(''docAnnotation'', Obj [(''required'', Bool False)])]) False = Inr ''no''"
    "required_text (Obj [(''docAnnotation'', Obj [(''required'', Num 0)])]) True = Inr ''**yes**''"
    "required_text (Obj [(''docAnnotation'', Obj [(''required'', Str [])])]) False = Inr ''no''"
    by simp_all
  ultimately show ?thesis
    using w ty by simp
qed

section \<open>The order of the sections\<close>

lemma sort_key_unique:
  assumes "set xs = set ys" "distinct (map f xs)" "distinct (map f ys)"
  shows "sort_key f xs = sort_key f ys"
proof -
  from assms have inj: "inj_on f (set xs)" "inj_on f (set ys)" "distinct xs" "distinct ys"
    by (simp_all add: distinct_map)
  have "map f (sort_key f xs) = map f (sort_key f ys)"
  proof (rule sorted_distinct_set_unique)
    show "sorted (map f (sort_key f xs))" "sorted (map f (sort_key f ys))"
      by simp_all
    show "distinct (map f (sort_key f xs))" "distinct (map f (sort_key f ys))"
      using inj by (simp_all add: distinct_map)
    show "set (map f (sort_key f xs)) = set (map f (sort_key f ys))"
      using assms(1) by simp
  qed
  moreover have "inj_on f (set (sort_key f xs) \<union> set (sort_key f ys))"
    using inj assms(1) by simp
  ultimately show ?thesis
    by (simp add: inj_on_map_eq_map)
qed

lemma sorted_schemas_unique:
  assumes "set (map snd m1) = set (map snd m2)"
    and "distinct (map f (map snd m1))" "distinct (map f (map snd m2))"
  shows "sort_key f (map snd (key_order m1)) = sort_key f (map snd (key_order m2))"
proof (rule sort_key_unique)
  show "set (map snd (key_order m1)) = set (map snd (key_order m2))"
    using assms(1) by simp
  from assms(2) have "distinct (map (f \<circ> snd) m1)" by simp
  then have "distinct (map (f \<circ> snd) (key_order m1))" by (rule distinct_map_key_order)
  then show "distinct (map f (map snd (key_order m1)))" by simp
  from assms(3) have "distinct (map (f \<circ> snd) m2)" by simp
  then have "distinct (map (f \<circ> snd) (key_order m2))" by (rule distinct_map_key_order)
  then show "distinct (map f (map snd (key_order m2)))" by simp
qed

lemma collected_values:
  assumes c: "collected h R [] m" and inj: "inj_on (\<lambda>a. id_str (h a)) R"
  shows "set (map snd m) = named h R \<and> distinct (map (\<lambda>a. id_str (h a)) (map snd m))"
proof -
  have "named h R \<subseteq> R"
    by (auto simp: named_def)
  with inj have injN: "inj_on (\<lambda>a. id_str (h a)) (named h R)"
    by (rule inj_on_subset)
  from c have keys: "fst ` set m = (\<lambda>a. id_str (h a)) ` named h R" and d: "distinct (map fst m)"
    and sub: "set m \<subseteq> (\<lambda>a. (id_str (h a), a)) ` named h R"
    by (simp_all add: collected_def)
  from sub have e: "\<forall>p\<in>set m. fst p = id_str (h (snd p)) \<and> snd p \<in> named h R"
    by auto
  then have "map fst m = map (\<lambda>a. id_str (h a)) (map snd m)"
    by simp
  with d have 1: "distinct (map (\<lambda>a. id_str (h a)) (map snd m))"
    by simp
  have "a \<in> snd ` set m" if "a \<in> named h R" for a
  proof -
    from that keys have "id_str (h a) \<in> fst ` set m" by blast
    then obtain p where p: "p \<in> set m" "fst p = id_str (h a)" by auto
    with e have "id_str (h (snd p)) = id_str (h a)" "snd p \<in> named h R" by auto
    with injN that have "snd p = a" by (auto dest: inj_onD)
    with p(1) show ?thesis by force
  qed
  with e have "snd ` set m = named h R" by auto
  with 1 show ?thesis by simp
qed

lemma makeMarkdownSection_cong:
  "id_str S = id_str T \<Longrightarrow> schema S = schema T \<Longrightarrow>
   makeMarkdownSection ext S = makeMarkdownSection ext T"
  by (simp only: makeMarkdownSection_def makeExampleSection_def makeAntiExampleSection_def
      makePropertiesSection_def Let_def)

lemma render_cong:
  assumes "sorted_schemas h1 m1 = sorted_schemas h2 m2"
    and "\<forall>a. id_str (h2 a) = id_str (h1 a) \<and> schema (h2 a) = schema (h1 a)"
  shows "render ext h1 m1 = render ext h2 m2"
proof -
  have "makeMarkdownSection ext (h1 a) = makeMarkdownSection ext (h2 a)" for a
    by (rule makeMarkdownSection_cong) (simp_all add: assms(2))
  then have "(\<lambda>a. makeMarkdownSection ext (h1 a)) = (\<lambda>a. makeMarkdownSection ext (h2 a))"
    by (simp add: fun_eq_iff)
  with assms(1) show ?thesis
    by (simp add: render_def)
qed

text \<open>
  C7. Let two graphs hold the same \<^verbatim>\<open>id\<close> and \<^verbatim>\<open>schema\<close> at every node and the same
  dependencies up to their order, let the reachable nodes have distinct ids, and let
  the dependencies go down a rank (no cycle). Then \<^verbatim>\<open>buildDocs\<close> returns on both, for
  any bounds above the rank of the root, and returns the same: the sections are in
  the order of the ids, whatever the order in which the nodes were found. With the
  same graph on both sides: two runs give the same document.
\<close>

theorem buildDocs_order_stable:
  assumes same: "\<forall>a. id_str (h' a) = id_str (h a) \<and> schema (h' a) = schema (h a) \<and>
                     set (dependencies (h' a)) = set (dependencies (h a))"
    and uniq: "inj_on (\<lambda>a. id_str (h a)) (reach h r)"
    and rank: "\<forall>a\<in>reach h r. \<forall>c\<in>set (dependencies (h a)). rank c < (rank a :: nat)"
    and n: "rank r < n" and n': "rank r < n'"
  shows "buildDocs ext n h r = buildDocs ext n' h' r \<and> buildDocs ext n h r \<noteq> None"
proof -
  from same have "edges h' = edges h"
    by (simp add: edges_def)
  then have reach: "reach h' = reach h"
    by (simp add: reach_def fun_eq_iff)
  from same have ids: "(\<lambda>a. id_str (h' a)) = (\<lambda>a. id_str (h a))"
    by auto
  from rank same reach
  have rank2: "\<forall>a\<in>reach h' r. \<forall>c\<in>set (dependencies (h' a)). rank c < rank a"
    by simp
  from recurse_returns [OF rank reach_self n, of r "record_schema h" "[]" "[]"]
  obtain m1 where m1: "collectSchemas n h r = Some m1"
    unfolding collectSchemas_def walkSchemas_def by blast
  from recurse_returns [OF rank2 reach_self n', of r "record_schema h'" "[]" "[]"]
  obtain m2 where m2: "collectSchemas n' h' r = Some m2"
    unfolding collectSchemas_def walkSchemas_def by blast
  from collected_values [OF collectSchemas_collected [OF m1] uniq]
  have v1: "set (map snd m1) = named h (reach h r)" "distinct (map (\<lambda>a. id_str (h a)) (map snd m1))"
    by simp_all
  from uniq have "inj_on (\<lambda>a. id_str (h' a)) (reach h' r)"
    by (simp add: ids reach)
  from collected_values [OF collectSchemas_collected [OF m2] this]
  have v2: "set (map snd m2) = named h (reach h r)"
    "distinct (map (\<lambda>a. id_str (h a)) (map snd m2))"
    by (simp_all add: ids reach named_def same)
  have "sorted_schemas h m1 = sorted_schemas h' m2"
    unfolding sorted_schemas_def ids
    by (rule sorted_schemas_unique) (simp_all only: v1 v2)
  then have "render ext h m1 = render ext h' m2"
    using same by (intro render_cong) auto
  with m1 m2 show ?thesis
    by (simp add: buildDocs_def)
qed

lemma diamond_graph_swapped_same:
  "\<forall>a. id_str (diamond_graph_swapped a) = id_str (diamond_graph a) \<and>
       schema (diamond_graph_swapped a) = schema (diamond_graph a) \<and>
       set (dependencies (diamond_graph_swapped a)) = set (dependencies (diamond_graph a))"
  by (auto simp: diamond_graph_swapped_def diamond_graph_def)

lemma diamond_graph_ids: "inj_on (\<lambda>a. id_str (diamond_graph a)) (reach diamond_graph 0)"
  by (simp add: reach_diamond_graph diamond_graph_def)

lemma collectSchemas_diamond_graph_swapped:
  "collectSchemas 7 diamond_graph_swapped 0 =
     Some [(''/A'', 0), (''/C'', 2), (''/D'', 3), (''/E'', 4), (''/B'', 1)]"
  by (simp add: collectSchemas_def walkSchemas_def record_schema_def diamond_graph_swapped_def
      diamond_graph_def eval_nat_numeral)

lemma sorted_schemas_diamond_graph:
  "sorted_schemas diamond_graph [(''/A'', 0), (''/B'', 1), (''/D'', 3), (''/E'', 4), (''/C'', 2)]
     = [0, 1, 2, 3, 4]"
  by (simp add: sorted_schemas_def diamond_graph_def key_order_def array_index_first_non_digit)

theorem buildDocs_order_stable_witness:
  "buildDocs sample_externals 5 diamond_graph 0 = buildDocs sample_externals 7 diamond_graph_swapped 0 \<and>
   buildDocs sample_externals 5 diamond_graph 0 = buildDocs sample_externals 6 diamond_graph 0 \<and>
   buildDocs sample_externals 5 diamond_graph 0 \<noteq> None \<and>
   collectSchemas 4 diamond_graph 0 =
     Some [(''/A'', 0), (''/B'', 1), (''/D'', 3), (''/E'', 4), (''/C'', 2)] \<and>
   collectSchemas 7 diamond_graph_swapped 0 =
     Some [(''/A'', 0), (''/C'', 2), (''/D'', 3), (''/E'', 4), (''/B'', 1)]"
proof -
  have a: "buildDocs sample_externals 5 diamond_graph 0 =
        buildDocs sample_externals 7 diamond_graph_swapped 0 \<and>
      buildDocs sample_externals 5 diamond_graph 0 \<noteq> None"
    by (rule buildDocs_order_stable [where rank = "\<lambda>a. 4 - a"])
      (simp_all add: diamond_graph_swapped_same diamond_graph_ids diamond_graph_rank)
  have b: "buildDocs sample_externals 5 diamond_graph 0 =
        buildDocs sample_externals 6 diamond_graph 0 \<and>
      buildDocs sample_externals 5 diamond_graph 0 \<noteq> None"
    by (rule buildDocs_order_stable [where rank = "\<lambda>a. 4 - a"])
      (simp_all add: diamond_graph_ids diamond_graph_rank)
  from a b collectSchemas_diamond_graph collectSchemas_diamond_graph_swapped
  show ?thesis by blast
qed


end
